theory Spec2Isabelle
  imports Complex_Main "HOL-Library.AList" "HOL-Library.Multiset"
begin

section \<open>Sensor aggregation pipeline of \<^verbatim>\<open>src/main.py\<close> and \<^verbatim>\<open>src/mqtt_client.py\<close>\<close>

text \<open>
  Numbers. Sensor values and monotonic timestamps are Python floats (CO2 values are Python
  ints). They are modelled as exact rationals: sums, quotients and comparisons are the
  mathematical ones, and binary rounding error of the float operations is not represented.
  Python's \<^verbatim>\<open>round(x, ndigits)\<close> rounds the exact value of \<^verbatim>\<open>x\<close> to the nearest multiple
  of \<open>10 ^ -ndigits\<close>, ties going to the even multiple; \<^verbatim>\<open>round(x)\<close> does the same to the
  nearest integer.
\<close>

type_synonym val = rat

subsection \<open>Python built-ins used by the aggregator\<close>

definition py_round0 :: "rat \<Rightarrow> int" where
  \<comment> \<open>\<^verbatim>\<open>round(x)\<close>: nearest integer, ties to even\<close>
  "py_round0 x =
     (let f = \<lfloor>x\<rfloor>; d = x - of_int f
      in if d < 1 / 2 then f
         else if 1 / 2 < d then f + 1
         else if even f then f else f + 1)"

definition py_round :: "rat \<Rightarrow> nat \<Rightarrow> rat" where
  \<comment> \<open>\<^verbatim>\<open>round(x, ndigits)\<close> for \<open>ndigits \<ge> 0\<close>\<close>
  "py_round x ndigits = of_int (py_round0 (x * 10 ^ ndigits)) / 10 ^ ndigits"

definition py_int :: "rat \<Rightarrow> int" where
  \<comment> \<open>\<^verbatim>\<open>int(x)\<close> of a float: truncation towards zero\<close>
  "py_int x = (if 0 \<le> x then \<lfloor>x\<rfloor> else \<lceil>x\<rceil>)"

definition py_slice :: "'a list \<Rightarrow> int \<Rightarrow> int \<Rightarrow> 'a list" where
  \<comment> \<open>\<^verbatim>\<open>xs[a:b]\<close>: a negative bound counts from the end, both bounds are clamped to the list\<close>
  "py_slice xs a b =
     (let n = int (length xs);
          a' = (if a < 0 then max 0 (a + n) else min a n);
          b' = (if b < 0 then max 0 (b + n) else min b n)
      in take (nat (b' - a')) (drop (nat a') xs))"

datatype py_error = KeyError | StatisticsError

definition statistics_median :: "val list \<Rightarrow> py_error + val" where
  \<comment> \<open>\<^verbatim>\<open>statistics.median\<close> of the standard library\<close>
  "statistics_median data =
     (let data' = sort data; n = length data'
      in if n = 0 then Inl StatisticsError
         else if n mod 2 = 1 then Inr (data' ! (n div 2))
         else let i = n div 2 in Inr ((data' ! (i - 1) + data' ! i) / 2))"

subsection \<open>Aggregation constants\<close>

definition BUF_WINDOW_S :: rat where
  "BUF_WINDOW_S = 10"

definition TRIM_FRAC :: rat where
  "TRIM_FRAC = 0.10"

definition MIN_SAMPLES_FOR_TRIM :: nat where
  "MIN_SAMPLES_FOR_TRIM = 5"

datatype required_key = Slot | Co2 | Pm25 | Pres

fun MIN_REQUIRED :: "required_key \<Rightarrow> nat" where
  "MIN_REQUIRED Slot = 2"
| "MIN_REQUIRED Co2 = 2"
| "MIN_REQUIRED Pm25 = 5"
| "MIN_REQUIRED Pres = 2"

subsection \<open>Reductions\<close>

definition mean_safe :: "val list \<Rightarrow> val option" where
  "mean_safe values =
     (if values = [] then None
      else Some (py_round (sum_list values / of_nat (length values)) 2))"

definition median_safe :: "val list \<Rightarrow> py_error + val option" where
  "median_safe values =
     (if values = [] then Inr None
      else case statistics_median values of
             Inl e \<Rightarrow> Inl e
           | Inr m \<Rightarrow> Inr (Some (py_round m 2)))"

definition trimmed_mean_safe :: "val list \<Rightarrow> rat \<Rightarrow> val option" where
  "trimmed_mean_safe values fr =
     (if values = [] then None
      else let n = length values
           in if n < MIN_SAMPLES_FOR_TRIM then Some (py_round (sum_list values / of_nat n) 2)
              else let k = py_int (of_nat n * fr)
                   in if k = 0 then Some (py_round (sum_list values / of_nat n) 2)
                      else let vals = py_slice (sort values) k (int n - k)
                           in if vals = [] then Some (py_round (sum_list values / of_nat n) 2)
                              else Some (py_round (sum_list vals / of_nat (length vals)) 2))"

subsection \<open>Window buffer\<close>

text \<open>
  The module-level dictionary \<^verbatim>\<open>buf\<close> has seven fixed keys; two of them hold a dictionary
  from slot number to deque, the others a deque. A slot dictionary is an association list
  in insertion order with distinct keys. A deque is a list whose head is the left end; an
  entry is a pair (timestamp, value).
\<close>

type_synonym entry = "rat \<times> val"
type_synonym deque = "entry list"
type_synonym slots = "(nat \<times> deque) list"

record buf =
  temp_slots :: slots
  rh_slots :: slots
  bme_temp :: deque
  bme_rh :: deque
  bme_pres :: deque
  co2 :: deque
  pm25 :: deque

definition buf_initial :: buf where
  "buf_initial =
     \<lparr>temp_slots = [(0, []), (1, []), (2, []), (3, [])],
      rh_slots = [(0, []), (1, []), (2, []), (3, [])],
      bme_temp = [], bme_rh = [], bme_pres = [], co2 = [], pm25 = []\<rparr>"

datatype slots_key = Temp_slots | Rh_slots
datatype deque_key = Bme_temp | Bme_rh | Bme_pres | Co2_key | Pm25_key

fun get_slots :: "buf \<Rightarrow> slots_key \<Rightarrow> slots" where
  "get_slots b Temp_slots = temp_slots b"
| "get_slots b Rh_slots = rh_slots b"

fun set_slots :: "slots_key \<Rightarrow> slots \<Rightarrow> buf \<Rightarrow> buf" where
  "set_slots Temp_slots m b = b\<lparr>temp_slots := m\<rparr>"
| "set_slots Rh_slots m b = b\<lparr>rh_slots := m\<rparr>"

fun get_deque :: "buf \<Rightarrow> deque_key \<Rightarrow> deque" where
  "get_deque b Bme_temp = bme_temp b"
| "get_deque b Bme_rh = bme_rh b"
| "get_deque b Bme_pres = bme_pres b"
| "get_deque b Co2_key = co2 b"
| "get_deque b Pm25_key = pm25 b"

fun set_deque :: "deque_key \<Rightarrow> deque \<Rightarrow> buf \<Rightarrow> buf" where
  "set_deque Bme_temp d b = b\<lparr>bme_temp := d\<rparr>"
| "set_deque Bme_rh d b = b\<lparr>bme_rh := d\<rparr>"
| "set_deque Bme_pres d b = b\<lparr>bme_pres := d\<rparr>"
| "set_deque Co2_key d b = b\<lparr>co2 := d\<rparr>"
| "set_deque Pm25_key d b = b\<lparr>pm25 := d\<rparr>"

text \<open>
  \<^verbatim>\<open>_push(ts, key, val, slot=None)\<close>. The calls without a slot all name a deque key and the
  calls with a slot all name a slot-dictionary key, so the function is split in two by the
  kind of key. \<^verbatim>\<open>buf[key][slot]\<close> raises \<^verbatim>\<open>KeyError\<close> on a slot that is not in
  the dictionary.
\<close>

definition push :: "rat \<Rightarrow> deque_key \<Rightarrow> val option \<Rightarrow> buf \<Rightarrow> buf" where
  "push ts key v b =
     (case v of
        None \<Rightarrow> b
      | Some x \<Rightarrow> set_deque key (get_deque b key @ [(ts, x)]) b)"

definition push_slot :: "rat \<Rightarrow> slots_key \<Rightarrow> val option \<Rightarrow> nat \<Rightarrow> buf \<Rightarrow> py_error + buf" where
  "push_slot ts key v sl b =
     (case v of
        None \<Rightarrow> Inr b
      | Some x \<Rightarrow>
          (case map_of (get_slots b key) sl of
             None \<Rightarrow> Inl KeyError
           | Some d \<Rightarrow> Inr (set_slots key (AList.update sl (d @ [(ts, x)]) (get_slots b key)) b)))"

fun prune_deque :: "rat \<Rightarrow> deque \<Rightarrow> deque" where
  \<comment> \<open>\<^verbatim>\<open>while d and d[0][0] < cutoff: d.popleft()\<close>\<close>
  "prune_deque cutoff [] = []"
| "prune_deque cutoff ((ts, v) # d) =
     (if ts < cutoff then prune_deque cutoff d else (ts, v) # d)"

definition prune_slots :: "rat \<Rightarrow> slots \<Rightarrow> slots" where
  \<comment> \<open>\<^verbatim>\<open>for d in v.values(): ...\<close>\<close>
  "prune_slots cutoff m = map (\<lambda>(k, d). (k, prune_deque cutoff d)) m"

definition prune_now :: "rat \<Rightarrow> buf \<Rightarrow> buf" where
  "prune_now nw b =
     (let cutoff = nw - BUF_WINDOW_S
      in \<lparr>temp_slots = prune_slots cutoff (temp_slots b),
          rh_slots = prune_slots cutoff (rh_slots b),
          bme_temp = prune_deque cutoff (bme_temp b),
          bme_rh = prune_deque cutoff (bme_rh b),
          bme_pres = prune_deque cutoff (bme_pres b),
          co2 = prune_deque cutoff (co2 b),
          pm25 = prune_deque cutoff (pm25 b)\<rparr>)"

subsection \<open>Shared latest state\<close>

text \<open>
  The dictionaries stored in \<^verbatim>\<open>latest\<close> are records whose fields are optional, since the
  Publisher reads them with \<^verbatim>\<open>.get\<close>. \<^verbatim>\<open>latest["shtc3"]\<close> maps a channel to such a
  dictionary or to \<^verbatim>\<open>None\<close>.
\<close>

record th_reading =
  temp_c :: "val option"
  rh :: "val option"

record bme_reading = th_reading +
  press_hpa :: "val option"
  alt_m :: "val option"

record gp2y_reading =
  vout :: "val option"
  pm_ugm3 :: "val option"

record mhz_reading =
  mh_co2 :: "int option"
  mh_temp :: "int option"

record latest =
  timestamp :: "rat option"
  bme280 :: "bme_reading option"
  sht41 :: "th_reading option"
  shtc3 :: "nat \<rightharpoonup> th_reading option"
  gp2y :: "gp2y_reading option"
  mhz19b :: "mhz_reading option"

definition latest_initial :: latest where
  "latest_initial =
     \<lparr>timestamp = None, bme280 = None, sht41 = None, shtc3 = Map.empty,
      gp2y = None, mhz19b = None\<rparr>"

subsection \<open>Messaging client (\<^verbatim>\<open>mqtt_client.py\<close>)\<close>

type_synonym topic = string
type_synonym qos = int

record payload =
  hvac_id :: int
  temp_arr :: "rat list"
  rh_arr :: "rat list"
  co2_arr :: "int list"
  pm25_arr :: "int list"
  pres_arr :: "rat list"

text \<open>
  What a run prints and what it asks of the underlying \<^verbatim>\<open>paho\<close> client is recorded as a
  list of events. Whether a call of the underlying client raises is an input of the model.
\<close>

datatype event =
    Client_connect string int
  | Client_loop_start
  | Client_publish topic payload qos
  | Print_pub topic qos payload
  | Print_warning topic
  | Print_connected
  | Print_connect_error
  | Print_send topic
  | Print_publish_error topic

record MQTTClient =
  broker_host :: string
  broker_port :: int
  publish_topics :: "(topic \<times> qos) list"

definition MQTTClient_init :: "string \<Rightarrow> int \<Rightarrow> (topic \<times> qos) list \<Rightarrow> MQTTClient" where
  "MQTTClient_init host port topics =
     \<lparr>broker_host = host, broker_port = port,
      publish_topics = (if topics \<noteq> [] then topics else [])\<rparr>"

definition MQTTClient_connect :: "MQTTClient \<Rightarrow> bool \<Rightarrow> event list \<times> bool" where
  \<comment> \<open>second argument: the client's \<^verbatim>\<open>connect\<close> raises; second result: the method raises\<close>
  "MQTTClient_connect self connect_raises =
     (if connect_raises then ([Client_connect (broker_host self) (broker_port self)], True)
      else ([Client_connect (broker_host self) (broker_port self), Client_loop_start], False))"

definition MQTTClient_publish ::
    "MQTTClient \<Rightarrow> bool \<Rightarrow> topic \<Rightarrow> payload \<Rightarrow> qos \<Rightarrow> event list \<times> bool" where
  \<comment> \<open>second argument: the client's \<^verbatim>\<open>publish\<close> raises; second result: the method raises\<close>
  "MQTTClient_publish self publish_raises tp msg q =
     (if tp \<in> set (map fst (publish_topics self))
      then ([Print_pub tp q msg, Client_publish tp msg q], publish_raises)
      else ([Print_warning tp, Client_publish tp msg q], publish_raises))"

subsection \<open>Publisher\<close>

definition ch_to_slot :: "(nat \<times> nat) list" where
  "ch_to_slot = [(2, 0), (3, 1), (4, 2), (5, 3)]"

definition dict_get :: "('k \<rightharpoonup> 'v option) \<Rightarrow> 'k \<Rightarrow> 'v option" where
  \<comment> \<open>\<^verbatim>\<open>d.get(k)\<close>: \<^verbatim>\<open>None\<close> for a missing key and for a stored \<^verbatim>\<open>None\<close>\<close>
  "dict_get d k = (case d k of None \<Rightarrow> None | Some v \<Rightarrow> v)"

fun load_slots :: "rat \<Rightarrow> (nat \<rightharpoonup> th_reading option) \<Rightarrow> (nat \<times> nat) list \<Rightarrow> buf \<Rightarrow> py_error + buf" where
  "load_slots ts s3 [] b = Inr b"
| "load_slots ts s3 ((ch, sl) # rest) b =
     (case dict_get s3 ch of
        None \<Rightarrow> load_slots ts s3 rest b
      | Some e \<Rightarrow>
          (case push_slot ts Temp_slots (temp_c e) sl b of
             Inl err \<Rightarrow> Inl err
           | Inr b1 \<Rightarrow>
               (case push_slot ts Rh_slots (rh e) sl b1 of
                  Inl err \<Rightarrow> Inl err
                | Inr b2 \<Rightarrow> load_slots ts s3 rest b2)))"

definition load_snapshot :: "rat \<Rightarrow> latest \<Rightarrow> buf \<Rightarrow> py_error + buf" where
  \<comment> \<open>the pushes of one tick, in the order of the source\<close>
  "load_snapshot ts sn b =
     (case load_slots ts (shtc3 sn) ch_to_slot b of
        Inl err \<Rightarrow> Inl err
      | Inr b1 \<Rightarrow>
          (let b2 = (case bme280 sn of
                       None \<Rightarrow> b1
                     | Some bm \<Rightarrow>
                         push ts Bme_pres (press_hpa bm)
                           (push ts Bme_rh (rh bm) (push ts Bme_temp (temp_c bm) b1)));
               b3 = (case mhz19b sn of
                       None \<Rightarrow> b2
                     | Some mh \<Rightarrow> push ts Co2_key (map_option of_int (mh_co2 mh)) b2);
               b4 = (case gp2y sn of
                       None \<Rightarrow> b3
                     | Some gp \<Rightarrow> push ts Pm25_key (pm_ugm3 gp) b3)
           in Inr b4))"

definition have_sample :: "buf \<Rightarrow> bool" where
  \<comment> \<open>\<^verbatim>\<open>have_slot or have_co2 or have_pm or have_pres\<close>\<close>
  "have_sample b =
     (let have_slot = list_ex (\<lambda>dq. 1 \<le> length dq) (map snd (temp_slots b));
          have_co2 = (1 \<le> length (co2 b));
          have_pm = (1 \<le> length (pm25 b));
          have_pres = (1 \<le> length (bme_pres b))
      in have_slot \<or> have_co2 \<or> have_pm \<or> have_pres)"

definition vals :: "deque \<Rightarrow> val list" where
  "vals dq = map snd dq"

record aggregates =
  temp_slots_aggr :: "val option list"
  rh_slots_aggr :: "val option list"
  co2_aggr :: "val option"
  pm25_aggr :: "val option"
  pres_aggr :: "val option"

fun slot_means :: "buf \<Rightarrow> nat list \<Rightarrow> py_error + (val option list \<times> val option list)" where
  \<comment> \<open>\<^verbatim>\<open>for i in range(4): ...\<close>, the two lists built in step\<close>
  "slot_means b [] = Inr ([], [])"
| "slot_means b (i # rest) =
     (case map_of (temp_slots b) i of
        None \<Rightarrow> Inl KeyError
      | Some dt \<Rightarrow>
          (case map_of (rh_slots b) i of
             None \<Rightarrow> Inl KeyError
           | Some dh \<Rightarrow>
               (let vs_t = vals dt; vs_h = vals dh;
                    t = (if MIN_REQUIRED Slot \<le> length vs_t then mean_safe vs_t else None);
                    h = (if MIN_REQUIRED Slot \<le> length vs_h then mean_safe vs_h else None)
                in case slot_means b rest of
                     Inl err \<Rightarrow> Inl err
                   | Inr (ts, hs) \<Rightarrow> Inr (t # ts, h # hs))))"

definition compute_aggregates :: "buf \<Rightarrow> py_error + aggregates" where
  "compute_aggregates b =
     (case slot_means b [0, 1, 2, 3] of
        Inl err \<Rightarrow> Inl err
      | Inr (ts, hs) \<Rightarrow>
          (let co2_vals = vals (co2 b); pm_vals = vals (pm25 b); pr_vals = vals (bme_pres b)
           in case (if MIN_REQUIRED Co2 \<le> length co2_vals then median_safe co2_vals else Inr None) of
                Inl err \<Rightarrow> Inl err
              | Inr c \<Rightarrow>
                  Inr \<lparr>temp_slots_aggr = ts, rh_slots_aggr = hs, co2_aggr = c,
                       pm25_aggr = (if MIN_REQUIRED Pm25 \<le> length pm_vals
                                    then trimmed_mean_safe pm_vals TRIM_FRAC else None),
                       pres_aggr = (if MIN_REQUIRED Pres \<le> length pr_vals
                                    then mean_safe pr_vals else None)\<rparr>))"

definition f4_float :: "val option list \<Rightarrow> rat list" where
  "f4_float lst =
     (let base = map (\<lambda>x. case x of None \<Rightarrow> 0.0 | Some v \<Rightarrow> v) lst
      in take 4 (base @ [0.0, 0.0, 0.0, 0.0]))"

definition single_to4_int :: "val option \<Rightarrow> int list" where
  "single_to4_int v = [case v of None \<Rightarrow> 0 | Some x \<Rightarrow> py_round0 x, 0, 0, 0]"

definition single_to4_float :: "val option \<Rightarrow> rat list" where
  "single_to4_float v = [case v of None \<Rightarrow> 0.0 | Some x \<Rightarrow> x, 0.0, 0.0, 0.0]"

definition shape_payload :: "aggregates \<Rightarrow> payload" where
  "shape_payload a =
     \<lparr>hvac_id = 1,
      temp_arr = f4_float (temp_slots_aggr a),
      rh_arr = f4_float (rh_slots_aggr a),
      co2_arr = single_to4_int (co2_aggr a),
      pm25_arr = single_to4_int (pm25_aggr a),
      pres_arr = single_to4_float (pres_aggr a)\<rparr>"

fun publish_all :: "MQTTClient \<Rightarrow> (nat \<Rightarrow> bool) \<Rightarrow> nat \<Rightarrow> (topic \<times> qos) list \<Rightarrow> payload \<Rightarrow> event list" where
  \<comment> \<open>\<^verbatim>\<open>for topic, qos in TOPICS_PUB: try: ... except Exception: ...\<close>; the second argument
      tells of the call for the destination at each position whether the client raises\<close>
  "publish_all mqtt raises i [] msg = []"
| "publish_all mqtt raises i ((tp, q) # rest) msg =
     (case MQTTClient_publish mqtt (raises i) tp msg q of
        (evs, raised) \<Rightarrow>
          Print_send tp # evs @ (if raised then [Print_publish_error tp] else [])
            @ publish_all mqtt raises (Suc i) rest msg)"

record pub_state =
  first_window_start :: "rat option"
  t0 :: rat
  pbuf :: buf

record tick_input =
  tick_now :: rat
  tick_snap :: latest
  tick_raises :: "nat \<Rightarrow> bool"

definition publisher_tick ::
    "MQTTClient \<Rightarrow> (topic \<times> qos) list \<Rightarrow> tick_input \<Rightarrow> pub_state
       \<Rightarrow> py_error + (pub_state \<times> payload option \<times> event list)" where
  \<comment> \<open>one iteration of the \<^verbatim>\<open>while\<close> loop of \<^verbatim>\<open>publisher\<close>\<close>
  "publisher_tick mqtt TOPICS_PUB x st =
     (let nw = tick_now x; ts = nw
      in case load_snapshot ts (tick_snap x) (pbuf st) of
           Inl err \<Rightarrow> Inl err
         | Inr b1 \<Rightarrow>
             (let b2 = prune_now nw b1;
                  fws = (if first_window_start st = None
                         then (if have_sample b2 then Some nw else None)
                         else first_window_start st)
              in case fws of
                   None \<Rightarrow> Inr (\<lparr>first_window_start = fws, t0 = t0 st, pbuf = b2\<rparr>, None, [])
                 | Some f \<Rightarrow>
                     if BUF_WINDOW_S \<le> nw - t0 st \<and> BUF_WINDOW_S \<le> nw - f
                     then (case compute_aggregates b2 of
                             Inl err \<Rightarrow> Inl err
                           | Inr a \<Rightarrow>
                               (let msg = shape_payload a
                                in Inr (\<lparr>first_window_start = fws, t0 = nw, pbuf = b2\<rparr>,
                                        Some msg,
                                        publish_all mqtt (tick_raises x) 0 TOPICS_PUB msg)))
                     else Inr (\<lparr>first_window_start = fws, t0 = t0 st, pbuf = b2\<rparr>, None, [])))"

fun publisher_loop ::
    "MQTTClient \<Rightarrow> (topic \<times> qos) list \<Rightarrow> pub_state \<Rightarrow> tick_input list
       \<Rightarrow> py_error + (pub_state \<times> (rat \<times> payload) list \<times> event list)" where
  \<comment> \<open>the iterations made until \<^verbatim>\<open>stop_event\<close> is set, one per input; the second result
      lists the publishes with the tick time of each\<close>
  "publisher_loop mqtt TOPICS_PUB st [] = Inr (st, [], [])"
| "publisher_loop mqtt TOPICS_PUB st (x # xs) =
     (case publisher_tick mqtt TOPICS_PUB x st of
        Inl err \<Rightarrow> Inl err
      | Inr (st1, out, evs) \<Rightarrow>
          (case publisher_loop mqtt TOPICS_PUB st1 xs of
             Inl err \<Rightarrow> Inl err
           | Inr (st2, pubs, evs') \<Rightarrow>
               Inr (st2,
                    (case out of None \<Rightarrow> [] | Some msg \<Rightarrow> [(tick_now x, msg)]) @ pubs,
                    evs @ evs')))"

definition publisher ::
    "string \<Rightarrow> int \<Rightarrow> (topic \<times> qos) list \<Rightarrow> bool \<Rightarrow> rat \<Rightarrow> tick_input list
       \<Rightarrow> py_error + ((rat \<times> payload) list \<times> event list)" where
  \<comment> \<open>\<^verbatim>\<open>connect_raises\<close>: the client's \<^verbatim>\<open>connect\<close> raises; \<^verbatim>\<open>t_start\<close>: the clock
      reading taken before the loop\<close>
  "publisher BROKER_HOST BROKER_PORT TOPICS_PUB connect_raises t_start ticks =
     (let mqtt = MQTTClient_init BROKER_HOST BROKER_PORT TOPICS_PUB
      in case MQTTClient_connect mqtt connect_raises of
           (cevs, raised) \<Rightarrow>
             if raised then Inr ([], cevs @ [Print_connect_error])
             else (case publisher_loop mqtt TOPICS_PUB
                          \<lparr>first_window_start = None, t0 = t_start, pbuf = buf_initial\<rparr> ticks of
                     Inl err \<Rightarrow> Inl err
                   | Inr (st, pubs, evs) \<Rightarrow> Inr (pubs, cevs @ [Print_connected] @ evs)))"

subsection \<open>Sampling workers\<close>

text \<open>
  One iteration of each worker loop. What the sensor adapter did in the \<^verbatim>\<open>try\<close> block is
  an input: it returned a reading or it raised.
\<close>

datatype 'a outcome = Returned 'a | Raised

datatype worker_print =
    Print_sht41_error
  | Print_shtc3_error nat
  | Print_bme280_read_error
  | Print_gp2y_read_error
  | Print_mhz_read_error

definition TARGET_CHANNEL :: nat where
  "TARGET_CHANNEL = 1"

definition TARGET_CHANNELS :: "nat list" where
  "TARGET_CHANNELS = [2, 3, 4, 5]"

definition sht41_step :: "(val \<times> val) outcome \<Rightarrow> latest \<Rightarrow> latest \<times> worker_print list" where
  "sht41_step r l =
     (case r of
        Returned (t, h) \<Rightarrow> (l\<lparr>sht41 := Some \<lparr>temp_c = Some t, rh = Some h\<rparr>\<rparr>, [])
      | Raised \<Rightarrow> (l\<lparr>sht41 := None\<rparr>, [Print_sht41_error]))"

fun shtc3_steps ::
    "(nat \<Rightarrow> (val \<times> val) outcome) \<Rightarrow> nat list \<Rightarrow> latest \<Rightarrow> latest \<times> worker_print list" where
  \<comment> \<open>\<^verbatim>\<open>for ch in ch_list_shtc3: try: ... except Exception: ...\<close>\<close>
  "shtc3_steps r [] l = (l, [])"
| "shtc3_steps r (ch # chs) l =
     (case (case r ch of
              Returned (t, h) \<Rightarrow>
                (l\<lparr>shtc3 := (shtc3 l)(ch \<mapsto> Some \<lparr>temp_c = Some t, rh = Some h\<rparr>)\<rparr>, [])
            | Raised \<Rightarrow> (l\<lparr>shtc3 := (shtc3 l)(ch \<mapsto> None)\<rparr>, [Print_shtc3_error ch])) of
        (l1, ps) \<Rightarrow> (case shtc3_steps r chs l1 of (l2, ps') \<Rightarrow> (l2, ps @ ps')))"

definition worker_mux_shts_iter ::
    "(val \<times> val) outcome \<Rightarrow> (nat \<Rightarrow> (val \<times> val) outcome) \<Rightarrow> latest \<Rightarrow> latest \<times> worker_print list" where
  "worker_mux_shts_iter r41 rc3 l =
     (case sht41_step r41 l of
        (l1, ps) \<Rightarrow> (case shtc3_steps rc3 TARGET_CHANNELS l1 of (l2, ps') \<Rightarrow> (l2, ps @ ps')))"

definition worker_bme_gp2y_iter ::
    "bool \<Rightarrow> (val \<times> val \<times> val \<times> val) outcome \<Rightarrow> (val \<times> val) outcome \<Rightarrow> latest
       \<Rightarrow> latest \<times> worker_print list" where
  \<comment> \<open>first argument: \<^verbatim>\<open>_bme\<close> is set, that is the initialisation before the loop succeeded\<close>
  "worker_bme_gp2y_iter bme_set rb rg l =
     (case (if bme_set
            then (case rb of
                    Returned (temp, hum, prs, alt) \<Rightarrow>
                      (l\<lparr>bme280 := Some \<lparr>temp_c = Some (py_round temp 2),
                                         rh = Some (py_round hum 2),
                                         press_hpa = Some (py_round prs 2),
                                         alt_m = Some (py_round alt 2)\<rparr>\<rparr>, [])
                  | Raised \<Rightarrow> (l\<lparr>bme280 := None\<rparr>, [Print_bme280_read_error]))
            else (l, [])) of
        (l1, ps) \<Rightarrow>
          (case rg of
             Returned (v, ug) \<Rightarrow>
               (l1\<lparr>gp2y := Some \<lparr>vout = Some (py_round v 5), pm_ugm3 = Some (py_round ug 1)\<rparr>\<rparr>, ps)
           | Raised \<Rightarrow> (l1\<lparr>gp2y := None\<rparr>, ps @ [Print_gp2y_read_error])))"

definition worker_mhz_iter ::
    "bool \<Rightarrow> (int \<times> int) option outcome \<Rightarrow> (int \<times> int) option \<Rightarrow> latest
       \<Rightarrow> latest \<times> worker_print list" where
  \<comment> \<open>first argument: \<^verbatim>\<open>ser\<close> is set; second: what \<^verbatim>\<open>read_mhz19\<close> did, \<^verbatim>\<open>None\<close> being its
      answer to an invalid frame; third: the adapter's \<^verbatim>\<open>last_valid_result\<close>\<close>
  "worker_mhz_iter ser_set r last_valid_result l =
     (case (if ser_set then r else Returned None) of
        Raised \<Rightarrow> (l\<lparr>mhz19b := None\<rparr>, [Print_mhz_read_error])
      | Returned result \<Rightarrow>
          (case (case result of
                   Some (c, t) \<Rightarrow> (Some c, Some t)
                 | None \<Rightarrow>
                     (case last_valid_result of
                        Some (c, t) \<Rightarrow> (Some c, Some t)
                      | None \<Rightarrow> (None, None))) of
             (c, t) \<Rightarrow>
               (l\<lparr>mhz19b := (case c of
                                None \<Rightarrow> None
                              | Some c' \<Rightarrow> Some \<lparr>mh_co2 = Some c', mh_temp = t\<rparr>)\<rparr>, [])))"

subsection \<open>Predicates used in the statements\<close>

definition slots_ok :: "buf \<Rightarrow> bool" where
  \<comment> \<open>both slot dictionaries have the keys 0 to 3, as they have initially\<close>
  "slots_ok b =
     list_all (\<lambda>i. map_of (temp_slots b) i \<noteq> None \<and> map_of (rh_slots b) i \<noteq> None)
       [0, 1, 2, 3]"

text \<open>
  The trimmed mean as the specification words it: below 5 samples the plain mean; otherwise
  \<open>k = \<lfloor>n * 0.10\<rfloor>\<close>, and the plain mean if \<open>k = 0\<close> or if dropping \<open>k\<close> values at each end
  would leave nothing, else the mean of the sorted values without the lowest \<open>k\<close> and the
  highest \<open>k\<close>; rounded to 2 decimals.
\<close>

definition trimmed_mean_spec :: "val list \<Rightarrow> val" where
  "trimmed_mean_spec vs =
     (let n = length vs; plain = sum_list vs / of_nat n
      in py_round
           (if n < 5 then plain
            else let k = nat \<lfloor>of_nat n * (0.10 :: rat)\<rfloor>
                 in if k = 0 \<or> n \<le> 2 * k then plain
                    else let kept = rev (drop k (rev (drop k (sort vs))))
                         in sum_list kept / of_nat (length kept)) 2)"

text \<open>What a list of events shows: the messages handed to the underlying client, the
  destinations whose publish error was printed, the number of connection attempts.\<close>

fun sent :: "event list \<Rightarrow> (topic \<times> payload \<times> qos) list" where
  "sent [] = []"
| "sent (Client_publish tp msg q # es) = (tp, msg, q) # sent es"
| "sent (e # es) = sent es"

fun publish_errors :: "event list \<Rightarrow> topic list" where
  "publish_errors [] = []"
| "publish_errors (Print_publish_error tp # es) = tp # publish_errors es"
| "publish_errors (e # es) = publish_errors es"

fun connect_attempts :: "event list \<Rightarrow> nat" where
  "connect_attempts [] = 0"
| "connect_attempts (Client_connect h p # es) = Suc (connect_attempts es)"
| "connect_attempts (e # es) = connect_attempts es"

text \<open>The destinations of a cycle whose publish raises, by position.\<close>

fun failing :: "(nat \<Rightarrow> bool) \<Rightarrow> nat \<Rightarrow> (topic \<times> qos) list \<Rightarrow> topic list" where
  "failing raises i [] = []"
| "failing raises i ((tp, q) # rest) =
     (if raises i then tp # failing raises (Suc i) rest else failing raises (Suc i) rest)"

text \<open>Every sequence of the buffer, and the test that an entry lies in the window that ends
  at a given time.\<close>

definition all_deques :: "buf \<Rightarrow> deque list" where
  "all_deques b =
     map snd (temp_slots b) @ map snd (rh_slots b)
       @ [bme_temp b, bme_rh b, bme_pres b, co2 b, pm25 b]"

definition in_window :: "rat \<Rightarrow> entry \<Rightarrow> bool" where
  "in_window nw e = (nw - BUF_WINDOW_S \<le> fst e)"

text \<open>
  The buffer holds no entry at all; and a snapshot makes the Publisher push at least one
  value, which is how a sample enters the window buffer at a tick.
\<close>

definition buf_empty :: "buf \<Rightarrow> bool" where
  "buf_empty b = list_all (\<lambda>d. d = []) (all_deques b)"

definition snap_pushes :: "latest \<Rightarrow> bool" where
  "snap_pushes sn =
     (list_ex (\<lambda>(ch, sl). case dict_get (shtc3 sn) ch of
                             None \<Rightarrow> False
                           | Some e \<Rightarrow> temp_c e \<noteq> None \<or> rh e \<noteq> None) ch_to_slot
      \<or> (case bme280 sn of
            None \<Rightarrow> False
          | Some bm \<Rightarrow> temp_c bm \<noteq> None \<or> rh bm \<noteq> None \<or> press_hpa bm \<noteq> None)
      \<or> (case mhz19b sn of None \<Rightarrow> False | Some mh \<Rightarrow> mh_co2 mh \<noteq> None)
      \<or> (case gp2y sn of None \<Rightarrow> False | Some gp \<Rightarrow> pm_ugm3 gp \<noteq> None))"

definition has_keys :: "slots \<Rightarrow> bool" where
  "has_keys m = (\<forall>i \<in> {0, 1, 2, 3}. map_of m i \<noteq> None)"

subsection \<open>Concrete inputs used in the examples\<close>

definition no_failure :: "nat \<Rightarrow> bool" where
  "no_failure i = False"

definition first_fails :: "nat \<Rightarrow> bool" where
  "first_fails i = (i = 0)"

definition example_topics :: "(topic \<times> qos) list" where
  "example_topics = [(''sensor/all'', 0), (''hvac/1'', 1)]"

definition example_client :: MQTTClient where
  "example_client = MQTTClient_init ''localhost'' 1883 example_topics"

definition example_msg :: payload where
  "example_msg =
     \<lparr>hvac_id = 1, temp_arr = [0, 0, 0, 0], rh_arr = [0, 0, 0, 0],
      co2_arr = [405, 0, 0, 0], pm25_arr = [0, 0, 0, 0], pres_arr = [0, 0, 0, 0]\<rparr>"

definition example_state :: pub_state where
  "example_state =
     \<lparr>first_window_start = Some 0, t0 = 0,
      pbuf = buf_initial\<lparr>co2 := [(5, 400), (6, 410)]\<rparr>\<rparr>"

definition example_tick :: tick_input where
  "example_tick = \<lparr>tick_now = 10, tick_snap = latest_initial, tick_raises = first_fails\<rparr>"

definition third_fails :: "nat \<Rightarrow> (val \<times> val) outcome" where
  "third_fails ch = (if ch = 3 then Raised else Returned (21.5, 40))"

definition example_temp_buf :: buf where
  "example_temp_buf =
     buf_initial\<lparr>temp_slots := [(0, [(1, 20.0), (2, 21.0)]), (1, []),
                                (2, [(1, 19.5), (2, 19.7)]), (3, [])]\<rparr>"

definition out_of_order_buf :: buf where
  "out_of_order_buf = buf_initial\<lparr>co2 := [(100, 415), (0, 400)]\<rparr>"

definition ordered_buf :: buf where
  "ordered_buf =
     buf_initial\<lparr>temp_slots := [(0, [(85, 20), (95, 21)]), (1, []), (2, []), (3, [])],
                 co2 := [(80, 400), (89, 405), (90, 410), (100, 415)]\<rparr>"

definition tick_at :: "rat \<Rightarrow> latest \<Rightarrow> tick_input" where
  "tick_at t sn = \<lparr>tick_now = t, tick_snap = sn, tick_raises = no_failure\<rparr>"

definition example_snap :: latest where
  "example_snap = latest_initial\<lparr>mhz19b := Some \<lparr>mh_co2 = Some 400, mh_temp = Some 20\<rparr>\<rparr>"

definition example_run :: "tick_input list" where
  "example_run =
     [tick_at 0 latest_initial, tick_at 5 example_snap, tick_at 10 example_snap,
      tick_at 15 example_snap, tick_at 20 example_snap, tick_at 25 example_snap]"

section \<open>Properties\<close>

subsection \<open>Aggregation never raises on a buffer with its four slots\<close>

lemma sort_Nil_iff: "(sort xs = []) = (xs = [])"
  by (metis length_0_conv length_sort)

lemma statistics_median_nonempty:
  "values \<noteq> [] \<Longrightarrow>
   statistics_median values =
     Inr (if length values mod 2 = 1 then sort values ! (length values div 2)
          else (sort values ! (length values div 2 - 1) + sort values ! (length values div 2)) / 2)"
  by (simp add: statistics_median_def Let_def sort_Nil_iff)

lemma median_safe_total: "\<exists>r. median_safe values = Inr r"
proof (cases "values = []")
  case True
  then show ?thesis by (simp add: median_safe_def)
next
  case False
  then obtain m where "statistics_median values = Inr m"
    using statistics_median_nonempty by blast
  with False show ?thesis by (simp add: median_safe_def)
qed

lemma slot_means_total:
  "list_all (\<lambda>i. map_of (temp_slots b) i \<noteq> None \<and> map_of (rh_slots b) i \<noteq> None) ixs
   \<Longrightarrow> slot_means b ixs =
         Inr (map (\<lambda>i. case map_of (temp_slots b) i of
                          None \<Rightarrow> None
                        | Some d \<Rightarrow> if MIN_REQUIRED Slot \<le> length (vals d)
                                    then mean_safe (vals d) else None) ixs,
              map (\<lambda>i. case map_of (rh_slots b) i of
                          None \<Rightarrow> None
                        | Some d \<Rightarrow> if MIN_REQUIRED Slot \<le> length (vals d)
                                    then mean_safe (vals d) else None) ixs)"
  by (induction ixs) (auto simp: Let_def)

lemma compute_aggregates_eq:
  assumes "slots_ok b"
  shows "\<exists>c. (if MIN_REQUIRED Co2 \<le> length (vals (co2 b))
              then median_safe (vals (co2 b)) else Inr None) = Inr c \<and>
    compute_aggregates b =
      Inr \<lparr>temp_slots_aggr =
             map (\<lambda>i. case map_of (temp_slots b) i of
                         None \<Rightarrow> None
                       | Some d \<Rightarrow> if MIN_REQUIRED Slot \<le> length (vals d)
                                   then mean_safe (vals d) else None) [0, 1, 2, 3],
           rh_slots_aggr =
             map (\<lambda>i. case map_of (rh_slots b) i of
                         None \<Rightarrow> None
                       | Some d \<Rightarrow> if MIN_REQUIRED Slot \<le> length (vals d)
                                   then mean_safe (vals d) else None) [0, 1, 2, 3],
           co2_aggr = c,
           pm25_aggr = (if MIN_REQUIRED Pm25 \<le> length (vals (pm25 b))
                        then trimmed_mean_safe (vals (pm25 b)) TRIM_FRAC else None),
           pres_aggr = (if MIN_REQUIRED Pres \<le> length (vals (bme_pres b))
                        then mean_safe (vals (bme_pres b)) else None)\<rparr>"
proof -
  obtain c where c: "(if MIN_REQUIRED Co2 \<le> length (vals (co2 b))
                      then median_safe (vals (co2 b)) else Inr None) = Inr c"
    using median_safe_total by (cases "MIN_REQUIRED Co2 \<le> length (vals (co2 b))") auto
  have sm: "slot_means b [0, 1, 2, 3] =
         Inr (map (\<lambda>i. case map_of (temp_slots b) i of
                          None \<Rightarrow> None
                        | Some d \<Rightarrow> if MIN_REQUIRED Slot \<le> length (vals d)
                                    then mean_safe (vals d) else None) [0, 1, 2, 3],
              map (\<lambda>i. case map_of (rh_slots b) i of
                          None \<Rightarrow> None
                        | Some d \<Rightarrow> if MIN_REQUIRED Slot \<le> length (vals d)
                                    then mean_safe (vals d) else None) [0, 1, 2, 3])"
    using assms unfolding slots_ok_def by (rule slot_means_total)
  show ?thesis
    unfolding compute_aggregates_def sm using c by (simp add: Let_def)
qed

lemma less_four: "(i::nat) < 4 \<Longrightarrow> i = 0 \<or> i = 1 \<or> i = 2 \<or> i = 3"
  by arith

subsection \<open>Minimum sample counts\<close>

text \<open>
  Claim C1. In a publish cycle, a metric whose window holds fewer samples than its minimum
  sample count (each temperature or humidity slot 2, CO2 2, particulate 5, pressure 2) has
  the aggregate \<^verbatim>\<open>None\<close>. The aggregation itself returns on every buffer that has its
  four slots.
\<close>

theorem under_filled_window_unavailable:
  assumes "slots_ok b"
  shows "\<exists>a. compute_aggregates b = Inr a
           \<and> length (temp_slots_aggr a) = 4 \<and> length (rh_slots_aggr a) = 4
           \<and> (\<forall>i d. i < 4 \<and> map_of (temp_slots b) i = Some d \<and> length d < MIN_REQUIRED Slot
                  \<longrightarrow> temp_slots_aggr a ! i = None)
           \<and> (\<forall>i d. i < 4 \<and> map_of (rh_slots b) i = Some d \<and> length d < MIN_REQUIRED Slot
                  \<longrightarrow> rh_slots_aggr a ! i = None)
           \<and> (length (co2 b) < MIN_REQUIRED Co2 \<longrightarrow> co2_aggr a = None)
           \<and> (length (pm25 b) < MIN_REQUIRED Pm25 \<longrightarrow> pm25_aggr a = None)
           \<and> (length (bme_pres b) < MIN_REQUIRED Pres \<longrightarrow> pres_aggr a = None)
           \<and> MIN_REQUIRED Slot = 2 \<and> MIN_REQUIRED Co2 = 2
           \<and> MIN_REQUIRED Pm25 = 5 \<and> MIN_REQUIRED Pres = 2"
proof -
  obtain c where c: "(if MIN_REQUIRED Co2 \<le> length (vals (co2 b))
                      then median_safe (vals (co2 b)) else Inr None) = Inr c"
    and a: "compute_aggregates b =
      Inr \<lparr>temp_slots_aggr =
             map (\<lambda>i. case map_of (temp_slots b) i of
                         None \<Rightarrow> None
                       | Some d \<Rightarrow> if MIN_REQUIRED Slot \<le> length (vals d)
                                   then mean_safe (vals d) else None) [0, 1, 2, 3],
           rh_slots_aggr =
             map (\<lambda>i. case map_of (rh_slots b) i of
                         None \<Rightarrow> None
                       | Some d \<Rightarrow> if MIN_REQUIRED Slot \<le> length (vals d)
                                   then mean_safe (vals d) else None) [0, 1, 2, 3],
           co2_aggr = c,
           pm25_aggr = (if MIN_REQUIRED Pm25 \<le> length (vals (pm25 b))
                        then trimmed_mean_safe (vals (pm25 b)) TRIM_FRAC else None),
           pres_aggr = (if MIN_REQUIRED Pres \<le> length (vals (bme_pres b))
                        then mean_safe (vals (bme_pres b)) else None)\<rparr>"
    using compute_aggregates_eq [OF assms] by blast
  have co: "length (co2 b) < MIN_REQUIRED Co2 \<longrightarrow> c = None"
    using c by (auto simp: vals_def)
  show ?thesis
    unfolding a using co
    by (auto simp: vals_def dest!: less_four)
qed

theorem under_filled_window_unavailable_witness:
  "slots_ok (buf_initial\<lparr>co2 := [(0, 400)], pm25 := [(0, 1), (1, 2), (2, 3), (3, 4)]\<rparr>)
   \<and> (\<exists>a. compute_aggregates
             (buf_initial\<lparr>co2 := [(0, 400)], pm25 := [(0, 1), (1, 2), (2, 3), (3, 4)]\<rparr>) = Inr a
          \<and> temp_slots_aggr a ! 0 = None \<and> rh_slots_aggr a ! 3 = None
          \<and> co2_aggr a = None \<and> pm25_aggr a = None \<and> pres_aggr a = None)"
proof -
  let ?b = "buf_initial\<lparr>co2 := [(0, 400)], pm25 := [(0, 1), (1, 2), (2, 3), (3, 4)]\<rparr>"
  have h: "slots_ok ?b"
    by (simp add: slots_ok_def buf_initial_def)
  from under_filled_window_unavailable [OF h] obtain a where
    a: "compute_aggregates ?b = Inr a"
    and t: "\<forall>i d. i < 4 \<and> map_of (temp_slots ?b) i = Some d \<and> length d < MIN_REQUIRED Slot
                  \<longrightarrow> temp_slots_aggr a ! i = None"
    and r: "\<forall>i d. i < 4 \<and> map_of (rh_slots ?b) i = Some d \<and> length d < MIN_REQUIRED Slot
                  \<longrightarrow> rh_slots_aggr a ! i = None"
    and c: "length (co2 ?b) < MIN_REQUIRED Co2 \<longrightarrow> co2_aggr a = None"
    and p: "length (pm25 ?b) < MIN_REQUIRED Pm25 \<longrightarrow> pm25_aggr a = None"
    and q: "length (bme_pres ?b) < MIN_REQUIRED Pres \<longrightarrow> pres_aggr a = None"
    by blast
  have "temp_slots_aggr a ! 0 = None"
    using t [rule_format, of 0 "[]"] by (simp add: buf_initial_def)
  moreover have "rh_slots_aggr a ! 3 = None"
    using r [rule_format, of 3 "[]"] by (simp add: buf_initial_def)
  moreover have "co2_aggr a = None" using c by simp
  moreover have "pm25_aggr a = None" using p by simp
  moreover have "pres_aggr a = None" using q by (simp add: buf_initial_def)
  ultimately show ?thesis using h a by blast
qed

subsection \<open>Trimmed mean\<close>

lemma floor_tenth: "\<lfloor>of_nat n * (0.10 :: rat)\<rfloor> = int (n div 10)"
proof -
  have "of_nat n * (0.10 :: rat) = of_nat n / of_nat 10" by simp
  then show ?thesis by (simp only: floor_divide_of_nat_eq)
qed

lemma spec_count: "nat \<lfloor>of_nat n * (0.10 :: rat)\<rfloor> = n div 10"
  by (simp only: floor_tenth nat_int)

lemma trim_count: "py_int (of_nat n * TRIM_FRAC) = int (n div 10)"
proof -
  have "0 \<le> of_nat n * TRIM_FRAC" by (simp add: TRIM_FRAC_def)
  then show ?thesis
    unfolding py_int_def TRIM_FRAC_def by (simp only: floor_tenth if_True)
qed

lemma py_slice_inner:
  assumes "0 < k" "k \<le> length xs"
  shows "py_slice xs (int k) (int (length xs) - int k) = take (length xs - 2 * k) (drop k xs)"
proof -
  have "nat (int (length xs) - int k - int k) = length xs - 2 * k" by arith
  then show ?thesis
    using assms by (simp add: py_slice_def Let_def min_def)
qed

lemma rev_drop_rev_drop:
  "rev (drop k (rev (drop k xs))) = take (length xs - 2 * k) (drop k xs)"
proof -
  have "rev (drop k (rev ys)) = take (length ys - k) ys" for ys :: "'a list"
    using rev_drop [of k "rev ys"] by simp
  from this [of "drop k xs"] show ?thesis
    by (simp add: mult_2)
qed

lemma sum_list_sort: "sum_list (sort xs) = sum_list (xs :: rat list)"
  by (metis mset_sort sum_mset_sum_list)

lemma sorted_le_last:
  "sorted (xs :: rat list) \<Longrightarrow> x \<in> set xs \<Longrightarrow> x \<le> last xs"
  by (induction xs) (auto split: if_splits)

lemma sorted_ends:
  assumes "sorted (xs :: rat list)" "2 \<le> length xs"
  shows "sum_list (butlast (tl xs)) = sum_list xs - Min (set xs) - Max (set xs)"
proof -
  obtain a ys where xs: "xs = a # ys"
    using assms(2) by (cases xs) auto
  have ys: "ys \<noteq> []" using assms(2) xs by auto
  have mn: "Min (set xs) = a"
    using assms(1) xs by (intro Min_eqI) auto
  have mx: "Max (set xs) = last ys"
    using sorted_le_last [OF assms(1)] xs ys by (intro Max_eqI) auto
  have "butlast ys @ [last ys] = ys"
    using ys by simp
  then have "sum_list ys = sum_list (butlast ys) + last ys"
    by (metis sum_list.Cons sum_list.Nil sum_list_append add.right_neutral)
  then show ?thesis
    using xs mn mx by simp
qed

lemma trimmed_mean_safe_cases:
  "trimmed_mean_safe vs TRIM_FRAC =
     (if vs = [] then None
      else if length vs < 5 \<or> length vs div 10 = 0
      then Some (py_round (sum_list vs / of_nat (length vs)) 2)
      else Some (py_round
             (sum_list (take (length vs - 2 * (length vs div 10)) (drop (length vs div 10) (sort vs)))
                / of_nat (length vs - 2 * (length vs div 10))) 2))"
proof -
  let ?n = "length vs"
  let ?k = "?n div 10"
  have sl: "py_slice (sort vs) (int ?k) (int ?n - int ?k) = take (?n - 2 * ?k) (drop ?k (sort vs))"
    if "0 < ?k"
    using py_slice_inner [of ?k "sort vs"] that by simp
  have ne: "take (?n - 2 * ?k) (drop ?k (sort vs)) \<noteq> []" if "0 < ?k"
  proof -
    have "2 * ?k < ?n" "?k < ?n" using that by arith+
    then show ?thesis by simp
  qed
  have len: "length (take (?n - 2 * ?k) (drop ?k (sort vs))) = ?n - 2 * ?k"
    by simp
  show ?thesis
  proof (cases "0 < ?k")
    case True
    show ?thesis
      unfolding trimmed_mean_safe_def trim_count Let_def MIN_SAMPLES_FOR_TRIM_def
      using True sl [OF True] ne [OF True] by (simp only: len) simp
  next
    case False
    then show ?thesis
      unfolding trimmed_mean_safe_def trim_count Let_def MIN_SAMPLES_FOR_TRIM_def
      by simp
  qed
qed

lemma trimmed_mean_spec_cases:
  "trimmed_mean_spec vs =
     (if length vs < 5 \<or> length vs div 10 = 0
      then py_round (sum_list vs / of_nat (length vs)) 2
      else py_round
             (sum_list (take (length vs - 2 * (length vs div 10)) (drop (length vs div 10) (sort vs)))
                / of_nat (length vs - 2 * (length vs div 10))) 2)"
proof -
  have "\<not> length vs \<le> 2 * (length vs div 10)" if "\<not> length vs < 5"
    using that by arith
  then show ?thesis
    unfolding trimmed_mean_spec_def spec_count Let_def rev_drop_rev_drop
    by auto
qed

text \<open>
  Claim C2. On a non-empty list the trimmed mean of the source is the trimmed mean of the
  specification. With exactly 5 samples it is the rounded plain mean; with exactly 10 samples
  it is the rounded mean of the 8 values left when the lowest and the highest are dropped.
\<close>

theorem trimmed_mean_refines:
  "vs \<noteq> [] \<longrightarrow>
     trimmed_mean_safe vs TRIM_FRAC = Some (trimmed_mean_spec vs)
     \<and> (length vs = 5 \<longrightarrow>
          trimmed_mean_safe vs TRIM_FRAC = Some (py_round (sum_list vs / 5) 2))
     \<and> (length vs = 10 \<longrightarrow>
          trimmed_mean_safe vs TRIM_FRAC =
            Some (py_round ((sum_list vs - Min (set vs) - Max (set vs)) / 8) 2))"
proof (intro impI conjI)
  assume ne: "vs \<noteq> []"
  then show "trimmed_mean_safe vs TRIM_FRAC = Some (trimmed_mean_spec vs)"
    by (simp add: trimmed_mean_safe_cases trimmed_mean_spec_cases)
next
  assume "vs \<noteq> []" and five: "length vs = 5"
  then show "trimmed_mean_safe vs TRIM_FRAC = Some (py_round (sum_list vs / 5) 2)"
    by (simp add: trimmed_mean_safe_cases)
next
  assume ne: "vs \<noteq> []" and ten: "length vs = 10"
  have "take 8 (drop 1 (sort vs)) = butlast (tl (sort vs))"
    using ten by (simp add: butlast_conv_take drop_Suc)
  moreover have "sum_list (butlast (tl (sort vs))) = sum_list vs - Min (set vs) - Max (set vs)"
    using sorted_ends [of "sort vs"] ten by (simp add: sum_list_sort)
  ultimately show "trimmed_mean_safe vs TRIM_FRAC =
            Some (py_round ((sum_list vs - Min (set vs) - Max (set vs)) / 8) 2)"
    using ne ten by (simp add: trimmed_mean_safe_cases)
qed


theorem trimmed_mean_refines_witness:
  "[100, 2, 3, 4, 5, 6, 7, 8, 9, - 50 :: rat] \<noteq> []
   \<and> length [100, 2, 3, 4, 5, 6, 7, 8, 9, - 50 :: rat] = 10
   \<and> trimmed_mean_safe [100, 2, 3, 4, 5, 6, 7, 8, 9, - 50] TRIM_FRAC = Some 5.5"
proof -
  let ?vs = "[100, 2, 3, 4, 5, 6, 7, 8, 9, - 50 :: rat]"
  have ne: "?vs \<noteq> []" and len: "length ?vs = 10"
    by simp_all
  have r: "py_round ((sum_list ?vs - Min (set ?vs) - Max (set ?vs)) / 8) 2 = 5.5"
    by (simp add: py_round_def py_round0_def)
  have "trimmed_mean_safe ?vs TRIM_FRAC =
          Some (py_round ((sum_list ?vs - Min (set ?vs) - Max (set ?vs)) / 8) 2)"
    using trimmed_mean_refines [of ?vs] ne len by blast
  then have "trimmed_mean_safe ?vs TRIM_FRAC = Some 5.5"
    by (simp only: r)
  then show ?thesis
    using ne len by blast
qed

subsection \<open>Median\<close>

lemma median_examples:
  "median_safe [400, 420, 440] = Inr (Some 420)"
  "median_safe [400, 420, 440, 460] = Inr (Some 430)"
  by (simp_all add: median_safe_def statistics_median_def py_round_def py_round0_def)

text \<open>
  Claim C3. The median reduction is the middle value of the sorted window for an odd count
  and the average of the two central values for an even count, rounded to 2 decimals; the
  median of 400, 420, 440 is 420 and the median of 400, 420, 440, 460 is 430.
\<close>

theorem median_safe_middle:
  "(vs \<noteq> [] \<and> odd (length vs) \<longrightarrow>
      median_safe vs = Inr (Some (py_round (sort vs ! (length vs div 2)) 2)))
   \<and> (vs \<noteq> [] \<and> even (length vs) \<longrightarrow>
      median_safe vs =
        Inr (Some (py_round ((sort vs ! (length vs div 2 - 1) + sort vs ! (length vs div 2)) / 2) 2)))
   \<and> median_safe [400, 420, 440] = Inr (Some 420)
   \<and> median_safe [400, 420, 440, 460] = Inr (Some 430)"
proof (intro conjI impI)
  assume "vs \<noteq> [] \<and> odd (length vs)"
  then show "median_safe vs = Inr (Some (py_round (sort vs ! (length vs div 2)) 2))"
    by (simp add: median_safe_def statistics_median_nonempty odd_iff_mod_2_eq_one)
next
  assume "vs \<noteq> [] \<and> even (length vs)"
  then show "median_safe vs =
        Inr (Some (py_round ((sort vs ! (length vs div 2 - 1) + sort vs ! (length vs div 2)) / 2) 2))"
    by (simp add: median_safe_def statistics_median_nonempty even_iff_mod_2_eq_zero)
qed (rule median_examples)+

theorem median_safe_middle_witness:
  "[7, 1, 3 :: rat] \<noteq> [] \<and> odd (length [7, 1, 3 :: rat]) \<and> median_safe [7, 1, 3] = Inr (Some 3)
   \<and> [7, 1, 3, 2 :: rat] \<noteq> [] \<and> even (length [7, 1, 3, 2 :: rat])
   \<and> median_safe [7, 1, 3, 2] = Inr (Some 2.5)"
proof -
  have "py_round 3 2 = 3" "py_round ((2 + 3) / 2) 2 = 2.5"
    by (simp_all add: py_round_def py_round0_def)
  then show ?thesis
    using median_safe_middle [of "[7, 1, 3]"] median_safe_middle [of "[7, 1, 3, 2]"]
    by simp
qed

subsection \<open>Messaging client\<close>

lemma sent_append: "sent (es @ fs) = sent es @ sent fs"
  by (induction es rule: sent.induct) auto

lemma publish_errors_append: "publish_errors (es @ fs) = publish_errors es @ publish_errors fs"
  by (induction es rule: publish_errors.induct) auto

text \<open>
  Claim C10. \<^verbatim>\<open>MQTTClient.publish\<close> hands every message to the underlying client with
  the topic, payload and delivery level it was given, whether or not the topic is in
  \<^verbatim>\<open>publish_topics\<close>; membership only selects the line printed before.
\<close>

theorem publish_forwards_regardless:
  "MQTTClient_publish self r tp msg q =
     ([if tp \<in> fst ` set (publish_topics self) then Print_pub tp q msg else Print_warning tp,
       Client_publish tp msg q], r)
   \<and> sent (fst (MQTTClient_publish self r tp msg q)) = [(tp, msg, q)]"
  by (simp add: MQTTClient_publish_def)

theorem publish_forwards_regardless_witness:
  "fst (MQTTClient_publish example_client False ''other/topic'' example_msg 1) =
     [Print_warning ''other/topic'', Client_publish ''other/topic'' example_msg 1]
   \<and> fst (MQTTClient_publish example_client False ''sensor/all'' example_msg 0) =
     [Print_pub ''sensor/all'' 0 example_msg, Client_publish ''sensor/all'' example_msg 0]"
  using publish_forwards_regardless [of example_client False "''other/topic''" example_msg 1]
    publish_forwards_regardless [of example_client False "''sensor/all''" example_msg 0]
  by (simp add: example_client_def example_topics_def MQTTClient_init_def)

subsection \<open>Publishing to several destinations\<close>

lemma publish_all_sent:
  "sent (publish_all mqtt raises i topics msg) = map (\<lambda>(tp, q). (tp, msg, q)) topics"
  by (induction topics arbitrary: i) (auto simp: MQTTClient_publish_def sent_append)

lemma publish_all_errors:
  "publish_errors (publish_all mqtt raises i topics msg) = failing raises i topics"
  by (induction topics arbitrary: i) (auto simp: MQTTClient_publish_def publish_errors_append)

lemma publisher_tick_raises_irrelevant:
  "publisher_tick mqtt T x st = Inr (st', out, evs) \<Longrightarrow>
   \<exists>evs'. publisher_tick mqtt T (x\<lparr>tick_raises := r\<rparr>) st = Inr (st', out, evs')"
  by (auto simp: publisher_tick_def Let_def split: sum.splits option.splits if_splits)

lemma publisher_tick_events:
  "publisher_tick mqtt T x st = Inr (st', out, evs) \<Longrightarrow>
   evs = (case out of None \<Rightarrow> [] | Some msg \<Rightarrow> publish_all mqtt (tick_raises x) 0 T msg)"
  by (auto simp: publisher_tick_def Let_def split: sum.splits option.splits if_splits)

text \<open>
  Claim C8. In a publish cycle every configured destination is handed the message, in order,
  whichever of the calls raise; the error is printed for exactly the destinations whose call
  raised; and the tick ends in the same state with the same payload under any other pattern
  of failures, so the loop goes on to its next tick.
\<close>

theorem publish_failure_isolated:
  "sent (publish_all mqtt raises 0 T msg) = map (\<lambda>(tp, q). (tp, msg, q)) T
   \<and> publish_errors (publish_all mqtt raises 0 T msg) = failing raises 0 T
   \<and> (publisher_tick mqtt T x st = Inr (st', Some msg, evs) \<longrightarrow>
        sent evs = map (\<lambda>(tp, q). (tp, msg, q)) T
        \<and> publish_errors evs = failing (tick_raises x) 0 T
        \<and> (\<exists>evs'. publisher_tick mqtt T (x\<lparr>tick_raises := r\<rparr>) st = Inr (st', Some msg, evs')))"
  using publisher_tick_events [of mqtt T x st st' "Some msg" evs]
    publisher_tick_raises_irrelevant [of mqtt T x st st' "Some msg" evs r]
  by (auto simp: publish_all_sent publish_all_errors)

lemma example_tick_publishes:
  "publisher_tick example_client example_topics example_tick example_state =
     Inr (example_state\<lparr>t0 := 10\<rparr>, Some example_msg,
          publish_all example_client first_fails 0 example_topics example_msg)"
  by (simp add: publisher_tick_def example_tick_def example_state_def example_msg_def
      load_snapshot_def latest_initial_def ch_to_slot_def dict_get_def
      prune_now_def buf_initial_def prune_slots_def BUF_WINDOW_S_def compute_aggregates_def
      vals_def median_safe_def statistics_median_def shape_payload_def f4_float_def
      single_to4_int_def single_to4_float_def py_round_def py_round0_def Let_def)

theorem publish_failure_isolated_witness:
  "publisher_tick example_client example_topics example_tick example_state =
     Inr (example_state\<lparr>t0 := 10\<rparr>, Some example_msg,
          publish_all example_client first_fails 0 example_topics example_msg)
   \<and> sent (publish_all example_client first_fails 0 example_topics example_msg) =
        [(''sensor/all'', example_msg, 0), (''hvac/1'', example_msg, 1)]
   \<and> publish_errors (publish_all example_client first_fails 0 example_topics example_msg) =
        [''sensor/all'']"
  using example_tick_publishes
    publish_failure_isolated [of example_client first_fails example_topics example_msg
      example_tick example_state "example_state\<lparr>t0 := 10\<rparr>"
      "publish_all example_client first_fails 0 example_topics example_msg" no_failure]
  by (simp add: example_topics_def first_fails_def)

subsection \<open>Connection failure\<close>

text \<open>
  Claim C7, amended. When connecting to the broker fails, no exception leaves
  \<^verbatim>\<open>publisher\<close>: the failure is printed and the function returns at once, after its single
  connection attempt, without running any cycle and without publishing.
\<close>

theorem connect_failure_returns:
  "publisher host port T True t_start ticks = Inr ([], [Client_connect host port, Print_connect_error])"
  by (simp add: publisher_def MQTTClient_connect_def MQTTClient_init_def)

theorem connect_failure_returns_witness:
  "publisher ''localhost'' 1883 example_topics True 0 example_run =
     Inr ([], [Client_connect ''localhost'' 1883, Print_connect_error])"
  using connect_failure_returns [of "''localhost''" 1883 example_topics 0 example_run] .

text \<open>
  The claim as stated, that the connection is tried again on the next cycle, fails: with two
  ticks of input after a failed connection there is still one connection attempt only.
\<close>

theorem connect_retry_counterexample:
  "publisher ''localhost'' 1883 example_topics True 0 [example_tick, example_tick\<lparr>tick_now := 11\<rparr>] =
     Inr ([], [Client_connect ''localhost'' 1883, Print_connect_error])
   \<and> connect_attempts [Client_connect ''localhost'' 1883, Print_connect_error] = 1"
  by (simp add: publisher_def MQTTClient_connect_def MQTTClient_init_def)

subsection \<open>Sampling workers: a failed read clears the entry\<close>

lemma shtc3_steps_other:
  "ch \<notin> set chs \<Longrightarrow> shtc3 (fst (shtc3_steps r chs l)) ch = shtc3 l ch"
  by (induction chs arbitrary: l) (auto simp: split_beta split: outcome.splits)

lemma shtc3_steps_raised:
  "distinct chs \<Longrightarrow> ch \<in> set chs \<Longrightarrow> r ch = Raised \<Longrightarrow>
   shtc3 (fst (shtc3_steps r chs l)) ch = Some None"
proof (induction chs arbitrary: l)
  case Nil
  then show ?case by simp
next
  case (Cons c chs)
  show ?case
  proof (cases "c = ch")
    case True
    with Cons.prems have "ch \<notin> set chs" by simp
    from shtc3_steps_other [OF this] True Cons.prems(3) show ?thesis
      by (simp add: split_beta)
  next
    case False
    with Cons show ?thesis
      by (auto simp: split_beta split: outcome.splits)
  qed
qed

lemma shtc3_steps_sht41:
  "sht41 (fst (shtc3_steps r chs l)) = sht41 l"
  by (induction chs arbitrary: l) (auto simp: split_beta split: outcome.splits)

text \<open>
  Claim C9. In a worker iteration whose sensor read raises, the entry of that sensor (for
  the SHTC3 sensors, of that channel) in the shared latest state is \<^verbatim>\<open>None\<close> at the end of
  the iteration. The CO2 worker does the same when the read raises; when the read answers
  with no valid frame, or there is no serial port, it stores the adapter's last valid
  result if there is one and \<^verbatim>\<open>None\<close> otherwise.
\<close>

theorem failed_read_clears_entry:
  "sht41 (fst (worker_mux_shts_iter Raised rc3 l)) = None
   \<and> (ch \<in> set TARGET_CHANNELS \<and> rc3 ch = Raised \<longrightarrow>
        shtc3 (fst (worker_mux_shts_iter r41 rc3 l)) ch = Some None
        \<and> dict_get (shtc3 (fst (worker_mux_shts_iter r41 rc3 l))) ch = None)
   \<and> bme280 (fst (worker_bme_gp2y_iter True Raised rg l)) = None
   \<and> gp2y (fst (worker_bme_gp2y_iter bme_set rb Raised l)) = None
   \<and> mhz19b (fst (worker_mhz_iter True Raised last_valid l)) = None
   \<and> ((ser_set \<longrightarrow> rm = Returned None) \<longrightarrow>
        mhz19b (fst (worker_mhz_iter ser_set rm last_valid l)) =
          (case last_valid of
             None \<Rightarrow> None
           | Some (c, t) \<Rightarrow> Some \<lparr>mh_co2 = Some c, mh_temp = Some t\<rparr>))"
proof (intro conjI impI)
  show "sht41 (fst (worker_mux_shts_iter Raised rc3 l)) = None"
    by (simp add: worker_mux_shts_iter_def sht41_step_def split_beta shtc3_steps_sht41)
next
  assume a: "ch \<in> set TARGET_CHANNELS \<and> rc3 ch = Raised"
  have d: "distinct TARGET_CHANNELS" by (simp add: TARGET_CHANNELS_def)
  show s: "shtc3 (fst (worker_mux_shts_iter r41 rc3 l)) ch = Some None"
    using shtc3_steps_raised [OF d, of ch rc3 "fst (sht41_step r41 l)"] a
    by (simp add: worker_mux_shts_iter_def split_beta)
  then show "dict_get (shtc3 (fst (worker_mux_shts_iter r41 rc3 l))) ch = None"
    by (simp add: dict_get_def)
next
  show "bme280 (fst (worker_bme_gp2y_iter True Raised rg l)) = None"
    by (simp add: worker_bme_gp2y_iter_def split_beta split: outcome.splits)
next
  show "gp2y (fst (worker_bme_gp2y_iter bme_set rb Raised l)) = None"
    by (simp add: worker_bme_gp2y_iter_def split_beta split: outcome.splits)
next
  show "mhz19b (fst (worker_mhz_iter True Raised last_valid l)) = None"
    by (simp add: worker_mhz_iter_def split: option.splits)
next
  assume "ser_set \<longrightarrow> rm = Returned None"
  then show "mhz19b (fst (worker_mhz_iter ser_set rm last_valid l)) =
          (case last_valid of
             None \<Rightarrow> None
           | Some (c, t) \<Rightarrow> Some \<lparr>mh_co2 = Some c, mh_temp = Some t\<rparr>)"
    by (auto simp: worker_mhz_iter_def split: option.splits)
qed

theorem failed_read_clears_entry_witness:
  "3 \<in> set TARGET_CHANNELS \<and> third_fails 3 = Raised
   \<and> shtc3 (fst (worker_mux_shts_iter (Returned (20, 50)) third_fails latest_initial)) 3 = Some None
   \<and> mhz19b (fst (worker_mhz_iter True (Returned None) (Some (415, 23)) latest_initial)) =
         Some \<lparr>mh_co2 = Some 415, mh_temp = Some 23\<rparr>"
proof -
  have h: "3 \<in> set TARGET_CHANNELS \<and> third_fails 3 = Raised"
    by (simp add: TARGET_CHANNELS_def third_fails_def)
  show ?thesis
    using h failed_read_clears_entry [of third_fails latest_initial 3 "Returned (20, 50)"
        "Raised" "True" "Raised" "Some (415, 23)" True "Returned None"]
    by simp
qed

subsection \<open>Payload shaping\<close>

lemma f4_float_length: "length (f4_float lst) = 4"
  by (simp add: f4_float_def)

lemma f4_float_nth:
  "i < 4 \<Longrightarrow> i < length lst \<Longrightarrow>
   f4_float lst ! i = (case lst ! i of None \<Rightarrow> 0 | Some v \<Rightarrow> v)"
  by (simp add: f4_float_def nth_append)

lemma f4_float_filler:
  "i < 4 \<Longrightarrow> length lst \<le> i \<Longrightarrow> f4_float lst ! i = 0"
  by (auto simp: f4_float_def nth_append dest!: less_four) (simp_all add: nth_Cons')

lemma mean_examples:
  "mean_safe [20.0, 21.0] = Some 20.5"
  "mean_safe [19.5, 19.7] = Some 19.6"
  by (simp_all add: mean_safe_def py_round_def py_round0_def)

text \<open>
  Claim C5. Payload shaping gives every metric an array of 4 elements in which an
  unavailable aggregate is the filler zero, a rational for the float metrics (temperature,
  humidity, pressure) and an integer for the int metrics (CO2, particulate). With the
  temperature windows 20.0, 21.0 in slot 0, none in slot 1, 19.5, 19.7 in slot 2 and none in
  slot 3, under the minimum sample count 2, the temperature array is 20.5, 0.0, 19.6, 0.0.
\<close>

theorem payload_filler_zero:
  "length (temp_arr (shape_payload a)) = 4 \<and> length (rh_arr (shape_payload a)) = 4
   \<and> (\<forall>i. i < 4 \<and> i < length (temp_slots_aggr a) \<longrightarrow>
          temp_arr (shape_payload a) ! i = (case temp_slots_aggr a ! i of None \<Rightarrow> 0.0 | Some v \<Rightarrow> v))
   \<and> (\<forall>i. i < 4 \<and> i < length (rh_slots_aggr a) \<longrightarrow>
          rh_arr (shape_payload a) ! i = (case rh_slots_aggr a ! i of None \<Rightarrow> 0.0 | Some v \<Rightarrow> v))
   \<and> co2_arr (shape_payload a) = [case co2_aggr a of None \<Rightarrow> 0 | Some v \<Rightarrow> py_round0 v, 0, 0, 0]
   \<and> pm25_arr (shape_payload a) = [case pm25_aggr a of None \<Rightarrow> 0 | Some v \<Rightarrow> py_round0 v, 0, 0, 0]
   \<and> pres_arr (shape_payload a) = [case pres_aggr a of None \<Rightarrow> 0.0 | Some v \<Rightarrow> v, 0.0, 0.0, 0.0]
   \<and> (slots_ok b
        \<and> map_of (temp_slots b) 0 = Some d0 \<and> vals d0 = [20.0, 21.0]
        \<and> map_of (temp_slots b) 1 = Some d1 \<and> vals d1 = []
        \<and> map_of (temp_slots b) 2 = Some d2 \<and> vals d2 = [19.5, 19.7]
        \<and> map_of (temp_slots b) 3 = Some d3 \<and> vals d3 = []
        \<longrightarrow> MIN_REQUIRED Slot = 2
            \<and> (\<exists>a'. compute_aggregates b = Inr a'
                  \<and> temp_slots_aggr a' = [Some 20.5, None, Some 19.6, None]
                  \<and> temp_arr (shape_payload a') = [20.5, 0.0, 19.6, 0.0]))"
proof (intro conjI allI impI)
  assume h: "slots_ok b
        \<and> map_of (temp_slots b) 0 = Some d0 \<and> vals d0 = [20.0, 21.0]
        \<and> map_of (temp_slots b) 1 = Some d1 \<and> vals d1 = []
        \<and> map_of (temp_slots b) 2 = Some d2 \<and> vals d2 = [19.5, 19.7]
        \<and> map_of (temp_slots b) 3 = Some d3 \<and> vals d3 = []"
  then have ok: "slots_ok b" by simp
  from compute_aggregates_eq [OF ok] obtain a' where
    a': "compute_aggregates b = Inr a'"
    and t: "temp_slots_aggr a' =
             map (\<lambda>i. case map_of (temp_slots b) i of
                         None \<Rightarrow> None
                       | Some d \<Rightarrow> if MIN_REQUIRED Slot \<le> length (vals d)
                                   then mean_safe (vals d) else None) [0, 1, 2, 3]"
    by force
  have t': "temp_slots_aggr a' = [Some 20.5, None, Some 19.6, None]"
    unfolding t using h mean_examples by simp
  have "temp_arr (shape_payload a') = [20.5, 0.0, 19.6, 0.0]"
    by (simp add: shape_payload_def t' f4_float_def)
  with a' t' show "\<exists>a'. compute_aggregates b = Inr a'
                  \<and> temp_slots_aggr a' = [Some 20.5, None, Some 19.6, None]
                  \<and> temp_arr (shape_payload a') = [20.5, 0.0, 19.6, 0.0]"
    by blast
qed (simp_all add: shape_payload_def f4_float_length f4_float_nth single_to4_int_def
      single_to4_float_def split: option.splits)

theorem payload_filler_zero_witness:
  "slots_ok example_temp_buf
   \<and> (\<exists>a'. compute_aggregates example_temp_buf = Inr a'
          \<and> temp_arr (shape_payload a') = [20.5, 0.0, 19.6, 0.0])"
proof -
  have h: "slots_ok example_temp_buf
        \<and> map_of (temp_slots example_temp_buf) 0 = Some [(1, 20.0), (2, 21.0)]
        \<and> vals [(1, 20.0), (2, 21.0)] = [20.0, 21.0]
        \<and> map_of (temp_slots example_temp_buf) 1 = Some [] \<and> vals [] = []
        \<and> map_of (temp_slots example_temp_buf) 2 = Some [(1, 19.5), (2, 19.7)]
        \<and> vals [(1, 19.5), (2, 19.7)] = [19.5, 19.7]
        \<and> map_of (temp_slots example_temp_buf) 3 = Some [] \<and> vals [] = []"
    by (simp add: example_temp_buf_def slots_ok_def buf_initial_def vals_def)
  from payload_filler_zero [of _ example_temp_buf "[(1, 20.0), (2, 21.0)]" "[]"
      "[(1, 19.5), (2, 19.7)]" "[]"] h
  show ?thesis by blast
qed

subsection \<open>Pruning\<close>

lemma prune_deque_retains:
  "filter (\<lambda>e. c \<le> fst e) (prune_deque c d) = filter (\<lambda>e. c \<le> fst e) d"
  by (induction c d rule: prune_deque.induct) auto

lemma prune_deque_sorted:
  "sorted (map fst d) \<Longrightarrow> prune_deque c d = filter (\<lambda>e. c \<le> fst e) d"
proof (induction c d rule: prune_deque.induct)
  case (1 cutoff)
  then show ?case by simp
next
  case (2 cutoff ts v d)
  show ?case
  proof (cases "ts < cutoff")
    case True
    with 2 show ?thesis by simp
  next
    case False
    with "2.prems" have "\<forall>e \<in> set d. cutoff \<le> fst e" by fastforce
    then have "filter (\<lambda>e. cutoff \<le> fst e) d = d" by simp
    with False show ?thesis by simp
  qed
qed

lemma all_deques_prune_now:
  "all_deques (prune_now nw b) = map (prune_deque (nw - BUF_WINDOW_S)) (all_deques b)"
  by (simp add: all_deques_def prune_now_def prune_slots_def Let_def split_beta comp_def)

text \<open>
  Claim C4, amended. Pruning keeps the slot keys and, whatever the order of the entries,
  retains every entry whose timestamp lies within the 10 second window. When every sequence
  of the buffer is in non-decreasing timestamp order, the order in which the Publisher
  appends, each sequence after \<^verbatim>\<open>prune(now)\<close> is exactly the entries of the window: no entry
  older than \<open>now - 10\<close> remains.
\<close>

theorem prune_now_window:
  "map fst (temp_slots (prune_now nw b)) = map fst (temp_slots b)
   \<and> map fst (rh_slots (prune_now nw b)) = map fst (rh_slots b)
   \<and> map (filter (in_window nw)) (all_deques (prune_now nw b))
       = map (filter (in_window nw)) (all_deques b)
   \<and> ((\<forall>d \<in> set (all_deques b). sorted (map fst d)) \<longrightarrow>
        all_deques (prune_now nw b) = map (filter (in_window nw)) (all_deques b)
        \<and> (\<forall>d \<in> set (all_deques (prune_now nw b)). \<forall>e \<in> set d. \<not> fst e < nw - BUF_WINDOW_S))"
proof (intro conjI impI)
  show "map fst (temp_slots (prune_now nw b)) = map fst (temp_slots b)"
    by (simp add: prune_now_def prune_slots_def Let_def split_beta comp_def)
  show "map fst (rh_slots (prune_now nw b)) = map fst (rh_slots b)"
    by (simp add: prune_now_def prune_slots_def Let_def split_beta comp_def)
  show "map (filter (in_window nw)) (all_deques (prune_now nw b))
       = map (filter (in_window nw)) (all_deques b)"
    unfolding all_deques_prune_now in_window_def [abs_def]
    by (simp add: prune_deque_retains)
next
  assume s: "\<forall>d \<in> set (all_deques b). sorted (map fst d)"
  then show eq: "all_deques (prune_now nw b) = map (filter (in_window nw)) (all_deques b)"
    unfolding all_deques_prune_now in_window_def [abs_def]
    by (simp add: prune_deque_sorted)
  show "\<forall>d \<in> set (all_deques (prune_now nw b)). \<forall>e \<in> set d. \<not> fst e < nw - BUF_WINDOW_S"
    unfolding eq by (auto simp: in_window_def)
qed

theorem prune_now_window_witness:
  "list_all (\<lambda>d. sorted (map fst d)) (all_deques ordered_buf)
   \<and> all_deques (prune_now 100 ordered_buf) =
       [[(95, 21)], [], [], [], [], [], [], [], [], [], [], [(90, 410), (100, 415)], []]"
proof -
  have h: "\<forall>d \<in> set (all_deques ordered_buf). sorted (map fst d)"
    by (simp add: all_deques_def ordered_buf_def buf_initial_def)
  have "all_deques (prune_now 100 ordered_buf) = map (filter (in_window 100)) (all_deques ordered_buf)"
    using prune_now_window [of 100 ordered_buf] h by blast
  then have "all_deques (prune_now 100 ordered_buf) =
      [[(95, 21)], [], [], [], [], [], [], [], [], [], [], [(90, 410), (100, 415)], []]"
    by (simp add: all_deques_def ordered_buf_def buf_initial_def in_window_def BUF_WINDOW_S_def)
  with h show ?thesis by (simp add: list_all_iff)
qed

text \<open>
  The claim as stated, for any insertion order, fails: pruning pops from the left end only,
  so an old entry behind a recent one stays.
\<close>

theorem prune_out_of_order_counterexample:
  "co2 (prune_now 100 out_of_order_buf) = [(100, 415), (0, 400)]
   \<and> (0 :: rat) < 100 - BUF_WINDOW_S"
  by (simp add: prune_now_def out_of_order_buf_def buf_initial_def BUF_WINDOW_S_def)

subsection \<open>The Publisher loop never raises\<close>

lemma slots_ok_iff: "slots_ok b = (has_keys (temp_slots b) \<and> has_keys (rh_slots b))"
  by (auto simp: slots_ok_def has_keys_def)

lemma has_keys_update: "has_keys m \<Longrightarrow> has_keys (AList.update k v m)"
  by (simp add: has_keys_def update_conv')

lemma has_keys_prune: "has_keys m \<Longrightarrow> has_keys (prune_slots c m)"
proof -
  have "map_of (prune_slots c m) i = map_option (prune_deque c) (map_of m i)" for i
    by (induction m) (auto simp: prune_slots_def)
  then show "has_keys m \<Longrightarrow> has_keys (prune_slots c m)"
    by (simp add: has_keys_def)
qed

lemma push_slots_ok: "slots_ok b \<Longrightarrow> slots_ok (push ts key v b)"
  by (cases key; cases v) (simp_all add: push_def slots_ok_iff)

lemma push_slot_ok:
  assumes "slots_ok b" "sl \<in> {0, 1, 2, 3}"
  shows "\<exists>b'. push_slot ts key v sl b = Inr b' \<and> slots_ok b'"
proof (cases v)
  case None
  with assms show ?thesis by (simp add: push_slot_def)
next
  case (Some x)
  from assms obtain d where d: "map_of (get_slots b key) sl = Some d"
    by (cases key) (auto simp: slots_ok_iff has_keys_def)
  with assms Some show ?thesis
    by (cases key) (auto simp: push_slot_def slots_ok_iff has_keys_update)
qed

lemma load_slots_ok:
  assumes "slots_ok b" "\<forall>(ch, sl) \<in> set cs. sl \<in> {0, 1, 2, 3}"
  shows "\<exists>b'. load_slots ts s3 cs b = Inr b' \<and> slots_ok b'"
  using assms
proof (induction cs arbitrary: b)
  case Nil
  then show ?case by simp
next
  case (Cons c cs)
  obtain ch sl where c: "c = (ch, sl)" by (cases c)
  with Cons.prems have sl: "sl \<in> {0, 1, 2, 3}" and rest: "\<forall>(ch, sl) \<in> set cs. sl \<in> {0, 1, 2, 3}"
    by auto
  show ?case
  proof (cases "dict_get s3 ch")
    case None
    with Cons.IH [OF Cons.prems(1) rest] c show ?thesis by simp
  next
    case (Some e)
    from push_slot_ok [OF Cons.prems(1) sl] obtain b1 where
      b1: "push_slot ts Temp_slots (temp_c e) sl b = Inr b1" "slots_ok b1" by blast
    from push_slot_ok [OF b1(2) sl] obtain b2 where
      b2: "push_slot ts Rh_slots (rh e) sl b1 = Inr b2" "slots_ok b2" by blast
    from Cons.IH [OF b2(2) rest] c Some b1 b2 show ?thesis by simp
  qed
qed

lemma load_snapshot_ok:
  assumes "slots_ok b"
  shows "\<exists>b'. load_snapshot ts sn b = Inr b' \<and> slots_ok b'"
proof -
  have "\<forall>(ch, sl) \<in> set ch_to_slot. sl \<in> {0, 1, 2, 3}"
    by (simp add: ch_to_slot_def)
  from load_slots_ok [OF assms this] obtain b1 where
    b1: "load_slots ts (shtc3 sn) ch_to_slot b = Inr b1" "slots_ok b1" by blast
  then show ?thesis
    by (auto simp: load_snapshot_def Let_def push_slots_ok split: option.splits)
qed

lemma prune_now_ok: "slots_ok b \<Longrightarrow> slots_ok (prune_now nw b)"
  by (simp add: slots_ok_iff prune_now_def Let_def has_keys_prune)

lemma compute_aggregates_ok: "slots_ok b \<Longrightarrow> \<exists>a. compute_aggregates b = Inr a"
  using compute_aggregates_eq by blast

lemma publisher_tick_ok:
  assumes "slots_ok (pbuf st)"
  shows "\<exists>st' out evs. publisher_tick mqtt T x st = Inr (st', out, evs) \<and> slots_ok (pbuf st')"
proof -
  from load_snapshot_ok [OF assms] obtain b1 where
    b1: "load_snapshot (tick_now x) (tick_snap x) (pbuf st) = Inr b1" "slots_ok b1" by blast
  then have b2: "slots_ok (prune_now (tick_now x) b1)" by (simp add: prune_now_ok)
  from compute_aggregates_ok [OF b2] obtain a where
    a: "compute_aggregates (prune_now (tick_now x) b1) = Inr a" by blast
  show ?thesis
    using b1 b2 a by (auto simp: publisher_tick_def Let_def split: option.splits)
qed

lemma publisher_loop_ok:
  "slots_ok (pbuf st) \<Longrightarrow> \<exists>st' pubs evs. publisher_loop mqtt T st xs = Inr (st', pubs, evs)"
proof (induction xs arbitrary: st)
  case Nil
  then show ?case by simp
next
  case (Cons x xs)
  from publisher_tick_ok [OF Cons.prems] obtain st1 out evs where
    t: "publisher_tick mqtt T x st = Inr (st1, out, evs)" "slots_ok (pbuf st1)" by blast
  from Cons.IH [OF t(2)] obtain st2 pubs evs' where
    "publisher_loop mqtt T st1 xs = Inr (st2, pubs, evs')" by blast
  with t show ?case by simp
qed

subsection \<open>Publish times\<close>

lemma publisher_tick_times:
  assumes "publisher_tick mqtt T x st = Inr (st1, out, evs)"
  shows "(first_window_start st1 = first_window_start st
          \<or> first_window_start st = None \<and> first_window_start st1 = Some (tick_now x))
         \<and> (out = None \<longrightarrow> t0 st1 = t0 st)
         \<and> (out \<noteq> None \<longrightarrow>
               t0 st1 = tick_now x \<and> t0 st + BUF_WINDOW_S \<le> tick_now x
               \<and> (\<exists>f. first_window_start st1 = Some f \<and> f + BUF_WINDOW_S \<le> tick_now x))"
  using assms
  by (auto simp: publisher_tick_def Let_def split: sum.splits option.splits if_splits)

lemma publisher_tick_first:
  assumes "publisher_tick mqtt T x st = Inr (st1, out, evs)" "first_window_start st = None"
  shows "out = None"
proof (rule ccontr)
  assume "out \<noteq> None"
  with publisher_tick_times [OF assms(1)] assms(2) show False
    by (auto simp: BUF_WINDOW_S_def)
qed

lemma publisher_loop_after:
  assumes "publisher_loop mqtt T st xs = Inr (st', pubs, evs)"
    and "\<forall>x \<in> set xs. t \<le> tick_now x"
    and "\<forall>f. first_window_start st = Some f \<longrightarrow> t \<le> f"
  shows "\<forall>p \<in> set pubs. t + BUF_WINDOW_S \<le> fst p"
  using assms
proof (induction xs arbitrary: st st' pubs evs)
  case Nil
  then show ?case by simp
next
  case (Cons x xs)
  from Cons.prems(1) obtain st1 out evs1 st2 pubs2 evs2 where
    t: "publisher_tick mqtt T x st = Inr (st1, out, evs1)"
    and l: "publisher_loop mqtt T st1 xs = Inr (st2, pubs2, evs2)"
    and p: "pubs = (case out of None \<Rightarrow> [] | Some msg \<Rightarrow> [(tick_now x, msg)]) @ pubs2"
    by (auto split: sum.splits)
  note tt = publisher_tick_times [OF t]
  have f1: "\<forall>f. first_window_start st1 = Some f \<longrightarrow> t \<le> f"
    using tt Cons.prems(2,3) by auto
  have rest: "\<forall>p \<in> set pubs2. t + BUF_WINDOW_S \<le> fst p"
    using Cons.IH [OF l _ f1] Cons.prems(2) by simp
  have "t + BUF_WINDOW_S \<le> tick_now x" if "out \<noteq> None"
    using tt that f1 by auto
  with rest p show ?case by (auto split: option.splits)
qed

lemma publisher_loop_separated:
  assumes "publisher_loop mqtt T st xs = Inr (st', pubs, evs)"
  shows "(\<forall>p \<in> set pubs. t0 st + BUF_WINDOW_S \<le> fst p)
         \<and> sorted_wrt (\<lambda>p q. p + BUF_WINDOW_S \<le> q) (map fst pubs)"
  using assms
proof (induction xs arbitrary: st st' pubs evs)
  case Nil
  then show ?case by simp
next
  case (Cons x xs)
  from Cons.prems(1) obtain st1 out evs1 st2 pubs2 evs2 where
    t: "publisher_tick mqtt T x st = Inr (st1, out, evs1)"
    and l: "publisher_loop mqtt T st1 xs = Inr (st2, pubs2, evs2)"
    and p: "pubs = (case out of None \<Rightarrow> [] | Some msg \<Rightarrow> [(tick_now x, msg)]) @ pubs2"
    by (auto split: sum.splits)
  note tt = publisher_tick_times [OF t]
  note ih = Cons.IH [OF l]
  show ?case
  proof (cases out)
    case None
    with tt ih p show ?thesis by simp
  next
    case (Some msg)
    with tt have a: "t0 st1 = tick_now x" and b: "t0 st + BUF_WINDOW_S \<le> tick_now x"
      by auto
    have w: "(0::rat) \<le> BUF_WINDOW_S" by (simp add: BUF_WINDOW_S_def)
    from ih a have later: "\<forall>q \<in> set pubs2. tick_now x + BUF_WINDOW_S \<le> fst q" by simp
    with b w have "\<forall>q \<in> set pubs2. t0 st + BUF_WINDOW_S \<le> fst q" by fastforce
    with Some p b later ih show ?thesis by auto
  qed
qed

subsection \<open>Ticks before the first sample\<close>

text \<open>A snapshot that pushes nothing leaves the buffer as it is; one that pushes leaves
  it non-empty.\<close>

lemma load_slots_no_push:
  "\<not> list_ex (\<lambda>(ch, sl). case dict_get s3 ch of
                             None \<Rightarrow> False
                           | Some e \<Rightarrow> temp_c e \<noteq> None \<or> rh e \<noteq> None) cs
   \<Longrightarrow> load_slots ts s3 cs b = Inr b"
  by (induction cs) (auto simp: push_slot_def split: option.splits)

lemma load_snapshot_no_push:
  assumes "\<not> snap_pushes sn"
  shows "load_snapshot ts sn b = Inr b"
proof -
  from assms have s: "load_slots ts (shtc3 sn) ch_to_slot b = Inr b"
    unfolding snap_pushes_def by (simp add: load_slots_no_push)
  from assms have bm: "(case bme280 sn of
                       None \<Rightarrow> b
                     | Some bm \<Rightarrow>
                         push ts Bme_pres (press_hpa bm)
                           (push ts Bme_rh (rh bm) (push ts Bme_temp (temp_c bm) b))) = b"
    unfolding snap_pushes_def by (cases "bme280 sn") (auto simp: push_def)
  from assms have mh: "(case mhz19b sn of
                       None \<Rightarrow> b
                     | Some mh \<Rightarrow> push ts Co2_key (map_option of_int (mh_co2 mh)) b) = b"
    unfolding snap_pushes_def by (cases "mhz19b sn") (auto simp: push_def)
  from assms have gp: "(case gp2y sn of
                       None \<Rightarrow> b
                     | Some gp \<Rightarrow> push ts Pm25_key (pm_ugm3 gp) b) = b"
    unfolding snap_pushes_def by (cases "gp2y sn") (auto simp: push_def)
  show ?thesis
    unfolding load_snapshot_def s Let_def by (simp only: sum.case bm mh gp)
qed

lemma update_keeps_nonempty:
  "\<exists>d \<in> set (map snd al). d \<noteq> [] \<Longrightarrow> v \<noteq> [] \<Longrightarrow>
   \<exists>d \<in> set (map snd (AList.update k v al)). d \<noteq> []"
  by (induction al) auto

lemma update_has_value: "v \<in> set (map snd (AList.update k v al))"
  by (induction al) auto

lemma buf_empty_iff:
  "buf_empty b =
     ((\<forall>d \<in> set (map snd (temp_slots b)). d = []) \<and> (\<forall>d \<in> set (map snd (rh_slots b)). d = [])
      \<and> bme_temp b = [] \<and> bme_rh b = [] \<and> bme_pres b = [] \<and> co2 b = [] \<and> pm25 b = [])"
  by (auto simp: buf_empty_def all_deques_def list_all_iff)

lemma push_keeps_nonempty: "\<not> buf_empty b \<Longrightarrow> \<not> buf_empty (push ts key v b)"
  by (cases key; cases v) (auto simp: push_def buf_empty_iff)

lemma push_enters: "\<not> buf_empty (push ts key (Some x) b)"
  by (cases key) (auto simp: push_def buf_empty_iff)

lemma push_slot_keeps_nonempty:
  assumes "push_slot ts key v sl b = Inr b'" "\<not> buf_empty b"
  shows "\<not> buf_empty b'"
proof (cases v)
  case None
  with assms show ?thesis by (simp add: push_slot_def)
next
  case (Some x)
  with assms(1) obtain d where
    b': "b' = set_slots key (AList.update sl (d @ [(ts, x)]) (get_slots b key)) b"
    by (auto simp: push_slot_def split: option.splits)
  have "d @ [(ts, x)] \<noteq> []" by simp
  from update_keeps_nonempty [OF _ this, of _ sl] assms(2) show ?thesis
    unfolding b' by (cases key) (auto simp: buf_empty_iff)
qed

lemma push_slot_enters:
  assumes "push_slot ts key (Some x) sl b = Inr b'"
  shows "\<not> buf_empty b'"
proof -
  from assms obtain d where
    b': "b' = set_slots key (AList.update sl (d @ [(ts, x)]) (get_slots b key)) b"
    by (auto simp: push_slot_def split: option.splits)
  have "d @ [(ts, x)] \<in> set (map snd (AList.update sl (d @ [(ts, x)]) (get_slots b key)))"
    by (rule update_has_value)
  moreover have "d @ [(ts, x)] \<noteq> []" by simp
  ultimately show ?thesis
    unfolding b' by (cases key) (auto simp: buf_empty_iff simp del: set_map)
qed

lemma load_slots_enters:
  assumes "load_slots ts s3 cs b = Inr b'"
    and "\<not> buf_empty b \<or>
         list_ex (\<lambda>(ch, sl). case dict_get s3 ch of
                                None \<Rightarrow> False
                              | Some e \<Rightarrow> temp_c e \<noteq> None \<or> rh e \<noteq> None) cs"
  shows "\<not> buf_empty b'"
  using assms
proof (induction cs arbitrary: b)
  case Nil
  then show ?case by simp
next
  case (Cons c cs)
  obtain ch sl where c: "c = (ch, sl)" by (cases c)
  show ?case
  proof (cases "dict_get s3 ch")
    case None
    with Cons c show ?thesis by simp
  next
    case (Some e)
    with Cons.prems(1) c obtain b1 b2 where
      b1: "push_slot ts Temp_slots (temp_c e) sl b = Inr b1"
      and b2: "push_slot ts Rh_slots (rh e) sl b1 = Inr b2"
      and l: "load_slots ts s3 cs b2 = Inr b'"
      by (auto split: sum.splits)
    have "\<not> buf_empty b2 \<or>
         list_ex (\<lambda>(ch, sl). case dict_get s3 ch of
                                None \<Rightarrow> False
                              | Some e \<Rightarrow> temp_c e \<noteq> None \<or> rh e \<noteq> None) cs"
    proof (cases "temp_c e")
      case t: None
      show ?thesis
      proof (cases "rh e")
        case h: None
        with t b1 b2 have "b2 = b" by (simp add: push_slot_def)
        with Cons.prems(2) c Some t h show ?thesis by simp
      next
        case h: (Some y)
        from b2 have "\<not> buf_empty b2"
          unfolding h by (rule push_slot_enters)
        then show ?thesis by simp
      qed
    next
      case t: (Some y)
      from b1 have "\<not> buf_empty b1"
        unfolding t by (rule push_slot_enters)
      with b2 have "\<not> buf_empty b2" by (rule push_slot_keeps_nonempty)
      then show ?thesis by simp
    qed
    from Cons.IH [OF l this] show ?thesis .
  qed
qed

lemma load_snapshot_enters:
  assumes "load_snapshot ts sn b = Inr b'" "snap_pushes sn"
  shows "\<not> buf_empty b'"
proof -
  from assms(1) obtain b1 where
    b1: "load_slots ts (shtc3 sn) ch_to_slot b = Inr b1"
    by (auto simp: load_snapshot_def split: sum.splits)
  define b2 where "b2 = (case bme280 sn of
                       None \<Rightarrow> b1
                     | Some bm \<Rightarrow>
                         push ts Bme_pres (press_hpa bm)
                           (push ts Bme_rh (rh bm) (push ts Bme_temp (temp_c bm) b1)))"
  define b3 where "b3 = (case mhz19b sn of
                       None \<Rightarrow> b2
                     | Some mh \<Rightarrow> push ts Co2_key (map_option of_int (mh_co2 mh)) b2)"
  define b4 where "b4 = (case gp2y sn of
                       None \<Rightarrow> b3
                     | Some gp \<Rightarrow> push ts Pm25_key (pm_ugm3 gp) b3)"
  have b': "b' = b4"
    using assms(1) b1 unfolding load_snapshot_def Let_def b4_def b3_def b2_def by simp
  have k2: "\<not> buf_empty b1 \<Longrightarrow> \<not> buf_empty b2"
    by (auto simp: b2_def push_keeps_nonempty split: option.splits)
  have k3: "\<not> buf_empty b2 \<Longrightarrow> \<not> buf_empty b3"
    by (auto simp: b3_def push_keeps_nonempty split: option.splits)
  have k4: "\<not> buf_empty b3 \<Longrightarrow> \<not> buf_empty b4"
    by (auto simp: b4_def push_keeps_nonempty split: option.splits)
  from assms(2) consider
    (s) "list_ex (\<lambda>(ch, sl). case dict_get (shtc3 sn) ch of
                             None \<Rightarrow> False
                           | Some e \<Rightarrow> temp_c e \<noteq> None \<or> rh e \<noteq> None) ch_to_slot"
    | (bm) bm where "bme280 sn = Some bm" "temp_c bm \<noteq> None \<or> rh bm \<noteq> None \<or> press_hpa bm \<noteq> None"
    | (mh) mh where "mhz19b sn = Some mh" "mh_co2 mh \<noteq> None"
    | (gp) gp where "gp2y sn = Some gp" "pm_ugm3 gp \<noteq> None"
    by (auto simp: snap_pushes_def split: option.splits)
  then have "\<not> buf_empty b4"
  proof cases
    case s
    with load_slots_enters [OF b1] have "\<not> buf_empty b1" by blast
    with k2 k3 k4 show ?thesis by blast
  next
    case bm
    have "\<not> buf_empty b2"
      using bm push_enters push_keeps_nonempty unfolding b2_def
      by (cases "temp_c bm"; cases "rh bm"; cases "press_hpa bm") auto
    with k3 k4 show ?thesis by blast
  next
    case mh
    then have "\<not> buf_empty b3"
      using push_enters unfolding b3_def by auto
    with k4 show ?thesis by blast
  next
    case gp
    then show ?thesis
      using push_enters unfolding b4_def by auto
  qed
  with b' show ?thesis by simp
qed

lemma prune_now_empty: "buf_empty b \<Longrightarrow> buf_empty (prune_now nw b)"
  by (auto simp: buf_empty_def all_deques_prune_now list_all_iff)

lemma have_sample_empty:
  assumes "buf_empty b"
  shows "\<not> have_sample b"
proof -
  from assms have "\<forall>d \<in> set (map snd (temp_slots b)). d = []"
    and "co2 b = []" "pm25 b = []" "bme_pres b = []"
    by (simp_all add: buf_empty_def all_deques_def list_all_iff)
  then show ?thesis
    by (simp add: have_sample_def list_ex_iff)
qed

lemma publisher_tick_idle:
  assumes "publisher_tick mqtt T x st = Inr (st1, out, evs)"
    and "first_window_start st = None" "buf_empty (pbuf st)" "\<not> snap_pushes (tick_snap x)"
  shows "out = None \<and> first_window_start st1 = None \<and> buf_empty (pbuf st1)"
proof -
  have "load_snapshot (tick_now x) (tick_snap x) (pbuf st) = Inr (pbuf st)"
    using assms(4) by (rule load_snapshot_no_push)
  moreover have "buf_empty (prune_now (tick_now x) (pbuf st))"
    using assms(3) by (rule prune_now_empty)
  moreover from this have "\<not> have_sample (prune_now (tick_now x) (pbuf st))"
    by (rule have_sample_empty)
  ultimately show ?thesis
    using assms(1,2) by (auto simp: publisher_tick_def Let_def)
qed

lemma publisher_loop_warmup:
  assumes "publisher_loop mqtt T st (pre @ x # post) = Inr (st', pubs, evs)"
    and "first_window_start st = None" "buf_empty (pbuf st)"
    and "\<forall>y \<in> set pre. \<not> snap_pushes (tick_snap y)"
    and "\<forall>y \<in> set post. tick_now x \<le> tick_now y"
  shows "\<forall>p \<in> set pubs. tick_now x + BUF_WINDOW_S \<le> fst p"
  using assms
proof (induction pre arbitrary: st st' pubs evs)
  case Nil
  from Nil.prems(1) obtain st1 out evs1 st2 pubs2 evs2 where
    t: "publisher_tick mqtt T x st = Inr (st1, out, evs1)"
    and l: "publisher_loop mqtt T st1 post = Inr (st2, pubs2, evs2)"
    and p: "pubs = (case out of None \<Rightarrow> [] | Some msg \<Rightarrow> [(tick_now x, msg)]) @ pubs2"
    by (auto split: sum.splits)
  have out: "out = None"
    using publisher_tick_first [OF t Nil.prems(2)] .
  have "\<forall>f. first_window_start st1 = Some f \<longrightarrow> tick_now x \<le> f"
    using publisher_tick_times [OF t] Nil.prems(2) by auto
  from publisher_loop_after [OF l Nil.prems(5) this] out p show ?case by simp
next
  case (Cons y pre)
  from Cons.prems(1) obtain st1 out evs1 st2 pubs2 evs2 where
    t: "publisher_tick mqtt T y st = Inr (st1, out, evs1)"
    and l: "publisher_loop mqtt T st1 (pre @ x # post) = Inr (st2, pubs2, evs2)"
    and p: "pubs = (case out of None \<Rightarrow> [] | Some msg \<Rightarrow> [(tick_now y, msg)]) @ pubs2"
    by (auto split: sum.splits)
  have "\<not> snap_pushes (tick_snap y)" using Cons.prems(4) by simp
  from publisher_tick_idle [OF t Cons.prems(2,3) this]
  have i: "out = None" "first_window_start st1 = None" "buf_empty (pbuf st1)" by simp_all
  have "\<forall>p \<in> set pubs2. tick_now x + BUF_WINDOW_S \<le> fst p"
    using Cons.IH [OF l i(2,3) _ Cons.prems(5)] Cons.prems(4) by simp
  with i p show ?case by simp
qed

lemma publisher_loop_no_sample:
  assumes "publisher_loop mqtt T st xs = Inr (st', pubs, evs)"
    and "first_window_start st = None" "buf_empty (pbuf st)"
    and "\<forall>y \<in> set xs. \<not> snap_pushes (tick_snap y)"
  shows "pubs = []"
  using assms
proof (induction xs arbitrary: st st' pubs evs)
  case Nil
  then show ?case by simp
next
  case (Cons y xs)
  from Cons.prems(1) obtain st1 out evs1 st2 pubs2 evs2 where
    t: "publisher_tick mqtt T y st = Inr (st1, out, evs1)"
    and l: "publisher_loop mqtt T st1 xs = Inr (st2, pubs2, evs2)"
    and p: "pubs = (case out of None \<Rightarrow> [] | Some msg \<Rightarrow> [(tick_now y, msg)]) @ pubs2"
    by (auto split: sum.splits)
  have "\<not> snap_pushes (tick_snap y)" using Cons.prems(4) by simp
  from publisher_tick_idle [OF t Cons.prems(2,3) this]
  have i: "out = None" "first_window_start st1 = None" "buf_empty (pbuf st1)" by simp_all
  have "pubs2 = []"
    using Cons.IH [OF l i(2,3)] Cons.prems(4) by simp
  with i p show ?case by simp
qed

lemma buf_initial_empty: "buf_empty buf_initial"
  by (simp add: buf_empty_def all_deques_def buf_initial_def)

lemma buf_initial_ok: "slots_ok buf_initial"
  by (simp add: slots_ok_def buf_initial_def)

lemma sorted_split_later:
  "sorted (map f (pre @ x # post)) \<Longrightarrow> \<forall>y \<in> set post. f x \<le> f y"
  by (auto simp: sorted_append)

text \<open>
  Claim C6. The Publisher returns for every input, and under a clock that does not go back
  (the tick times are in non-decreasing order): every publish comes at least 10 seconds
  after the tick at which the first sample of any metric entered the window buffer, there is
  no publish if no sample ever entered, and any two publishes are at least 10 seconds apart.
\<close>

theorem publish_rate_limited:
  "\<exists>pubs evs.
      publisher host port T cr t_start ticks = Inr (pubs, evs)
      \<and> (\<forall>pre x post.
            ticks = pre @ x # post \<and> sorted (map tick_now ticks)
            \<and> (\<forall>y \<in> set pre. \<not> snap_pushes (tick_snap y)) \<and> snap_pushes (tick_snap x)
            \<longrightarrow> (\<forall>p \<in> set pubs. tick_now x + BUF_WINDOW_S \<le> fst p))
      \<and> ((\<forall>y \<in> set ticks. \<not> snap_pushes (tick_snap y)) \<longrightarrow> pubs = [])
      \<and> sorted_wrt (\<lambda>p q. p + BUF_WINDOW_S \<le> q) (map fst pubs)
      \<and> BUF_WINDOW_S = 10"
proof (cases cr)
  case True
  then have "publisher host port T cr t_start ticks =
               Inr ([], [Client_connect host port, Print_connect_error])"
    by (simp add: publisher_def MQTTClient_connect_def MQTTClient_init_def)
  then show ?thesis
    by (simp add: BUF_WINDOW_S_def)
next
  case False
  let ?mqtt = "MQTTClient_init host port T"
  let ?st = "\<lparr>first_window_start = None, t0 = t_start, pbuf = buf_initial\<rparr>"
  have ok: "slots_ok (pbuf ?st)" by (simp add: buf_initial_ok)
  from publisher_loop_ok [OF ok] obtain st' pubs evs where
    l: "publisher_loop ?mqtt T ?st ticks = Inr (st', pubs, evs)" by blast
  have p: "publisher host port T cr t_start ticks =
             Inr (pubs, [Client_connect host port, Client_loop_start] @ [Print_connected] @ evs)"
    using l False by (simp add: publisher_def MQTTClient_connect_def MQTTClient_init_def)
  have a: "\<forall>pre x post.
            ticks = pre @ x # post \<and> sorted (map tick_now ticks)
            \<and> (\<forall>y \<in> set pre. \<not> snap_pushes (tick_snap y)) \<and> snap_pushes (tick_snap x)
            \<longrightarrow> (\<forall>p \<in> set pubs. tick_now x + BUF_WINDOW_S \<le> fst p)"
  proof (intro allI impI)
    fix pre x post
    assume h: "ticks = pre @ x # post \<and> sorted (map tick_now ticks)
            \<and> (\<forall>y \<in> set pre. \<not> snap_pushes (tick_snap y)) \<and> snap_pushes (tick_snap x)"
    then have split: "ticks = pre @ x # post" and idle: "\<forall>y \<in> set pre. \<not> snap_pushes (tick_snap y)"
      by simp_all
    from h have srt: "sorted (map tick_now (pre @ x # post))"
      by auto
    have later: "\<forall>y \<in> set post. tick_now x \<le> tick_now y"
      using srt by (rule sorted_split_later)
    show "\<forall>p \<in> set pubs. tick_now x + BUF_WINDOW_S \<le> fst p"
      using publisher_loop_warmup [OF l [unfolded split] _ _ idle later]
      by (simp add: buf_initial_empty)
  qed
  have b: "(\<forall>y \<in> set ticks. \<not> snap_pushes (tick_snap y)) \<longrightarrow> pubs = []"
    using publisher_loop_no_sample [OF l] by (simp add: buf_initial_empty)
  have c: "sorted_wrt (\<lambda>p q. p + BUF_WINDOW_S \<le> q) (map fst pubs)"
    using publisher_loop_separated [OF l] by simp
  have d: "BUF_WINDOW_S = 10" by (simp add: BUF_WINDOW_S_def)
  from p a b c d show ?thesis by blast
qed

lemma example_run_publishes:
  "map_sum id (\<lambda>r. map fst (fst r)) (publisher ''localhost'' 1883 example_topics False 0 example_run)
     = Inr [15, 25]"
  by code_simp

theorem publish_rate_limited_witness:
  "example_run = [tick_at 0 latest_initial] @ tick_at 5 example_snap # drop 2 example_run
   \<and> sorted (map tick_now example_run)
   \<and> \<not> snap_pushes (tick_snap (tick_at 0 latest_initial))
   \<and> snap_pushes (tick_snap (tick_at 5 example_snap))
   \<and> (\<exists>pubs evs. publisher ''localhost'' 1883 example_topics False 0 example_run = Inr (pubs, evs)
         \<and> map fst pubs = [15, 25]
         \<and> (\<forall>p \<in> set pubs. tick_now (tick_at 5 example_snap) + BUF_WINDOW_S \<le> fst p)
         \<and> sorted_wrt (\<lambda>p q. p + BUF_WINDOW_S \<le> q) (map fst pubs))"
proof -
  have h1: "example_run = [tick_at 0 latest_initial] @ tick_at 5 example_snap # drop 2 example_run"
    by (simp add: example_run_def)
  have h2: "sorted (map tick_now example_run)"
    by (simp add: example_run_def tick_at_def)
  have h3: "\<forall>y \<in> set [tick_at 0 latest_initial]. \<not> snap_pushes (tick_snap y)"
    by (simp add: tick_at_def snap_pushes_def latest_initial_def ch_to_slot_def dict_get_def)
  have h4: "snap_pushes (tick_snap (tick_at 5 example_snap))"
    by (simp add: tick_at_def snap_pushes_def example_snap_def latest_initial_def)
  from publish_rate_limited [of "''localhost''" 1883 example_topics False 0 example_run]
  obtain pubs evs where
    p: "publisher ''localhost'' 1883 example_topics False 0 example_run = Inr (pubs, evs)"
    and a: "\<forall>pre x post.
            example_run = pre @ x # post \<and> sorted (map tick_now example_run)
            \<and> (\<forall>y \<in> set pre. \<not> snap_pushes (tick_snap y)) \<and> snap_pushes (tick_snap x)
            \<longrightarrow> (\<forall>p \<in> set pubs. tick_now x + BUF_WINDOW_S \<le> fst p)"
    and c: "sorted_wrt (\<lambda>p q. p + BUF_WINDOW_S \<le> q) (map fst pubs)"
    by blast
  from a h1 h2 h3 h4 have b: "\<forall>p \<in> set pubs. tick_now (tick_at 5 example_snap) + BUF_WINDOW_S \<le> fst p"
    by blast
  from example_run_publishes p have m: "map fst pubs = [15, 25]"
    by simp
  have e: "\<exists>pubs evs. publisher ''localhost'' 1883 example_topics False 0 example_run = Inr (pubs, evs)
         \<and> map fst pubs = [15, 25]
         \<and> (\<forall>p \<in> set pubs. tick_now (tick_at 5 example_snap) + BUF_WINDOW_S \<le> fst p)
         \<and> sorted_wrt (\<lambda>p q. p + BUF_WINDOW_S \<le> q) (map fst pubs)"
  proof (intro exI conjI)
    show "publisher ''localhost'' 1883 example_topics False 0 example_run = Inr (pubs, evs)"
      by (rule p)
    show "map fst pubs = [15, 25]" by (rule m)
    show "\<forall>p \<in> set pubs. tick_now (tick_at 5 example_snap) + BUF_WINDOW_S \<le> fst p" by (rule b)
    show "sorted_wrt (\<lambda>p q. p + BUF_WINDOW_S \<le> q) (map fst pubs)" by (rule c)
  qed
  from h3 have h3': "\<not> snap_pushes (tick_snap (tick_at 0 latest_initial))"
    by simp
  show ?thesis
    by (intro conjI h1 h2 h3' h4 e)
qed

end
